theory Spec2Isabelle
  imports Main "HOL-Library.AList"
begin

section \<open>The org-tree engine of terminal-org-chart\<close>

text \<open>
  The engine is the pair of classes \<^verbatim>\<open>Employee\<close> and \<^verbatim>\<open>OrgChart\<close> of the id-keyed
  variant of the program. Employee objects are mutable and shared: the same object is
  held by the dictionary \<^verbatim>\<open>employees\<close>, by its manager's \<^verbatim>\<open>reports\<close> array and by the
  \<^verbatim>\<open>manager\<close> field of each of its reports. The model therefore keeps an explicit object
  store: an address is the number of the \<^verbatim>\<open>new Employee\<close> call that built the object,
  and every field access goes through the store.

  Conventions of the model:
  \<^item> a string is a list of character codes below 256 (the Latin-1 part of the code units
    of a JavaScript string);
  \<^item> the dictionary \<^verbatim>\<open>employees\<close> is a plain object: \<open>employees\<close> lists its own properties
    in the order they were created, \<open>property\<close> reads a key as the program does (own
    properties first, then what every object inherits from \<^verbatim>\<open>Object.prototype\<close>), \<open>store\<close>
    writes one and \<open>objectValues\<close> is \<^verbatim>\<open>Object.values\<close>;
  \<^item> two writes leave the part of the runtime that the model follows: the assignment
    \<^verbatim>\<open>employees['__proto__'] = employee\<close>, which replaces the prototype of the dictionary,
    and an edit that writes fields to \<^verbatim>\<open>Object.prototype\<close> itself. Both set the flag
    \<open>foreign\<close>, and nothing is claimed about a state that carries it;
  \<^item> the outcome of \<^verbatim>\<open>uuidv4()\<close> is an argument of the operation that calls it;
  \<^item> a snapshot is the nested object that \<^verbatim>\<open>JSON.stringify\<close> prints and \<^verbatim>\<open>JSON.parse\<close>
    reads back; printing is one-to-one on these objects, so two snapshots are the same
    text exactly when they are the same nested object;
  \<^item> \<^verbatim>\<open>level\<close> is a natural number: the program only ever writes \<^verbatim>\<open>0\<close>, some level plus
    one, or a level read back from a document;
  \<^item> the three recursive walks over \<^verbatim>\<open>reports\<close> carry a recursion budget. A walk that
    goes deeper than the number of objects ever built has met some object twice on one
    path, so it recurses forever in the program (a \<^verbatim>\<open>RangeError\<close>): the operations give
    the walks the budget \<open>nxt\<close>, and \<open>None\<close> stands for the thrown exception.
\<close>

subsection \<open>Data\<close>

type_synonym addr = nat

record employee =
  eid :: string
  ename :: string
  etitle :: string
  elob :: string
  edivision :: string
  edept :: string
  eemail :: string
  manager :: "addr option"
  reports :: "addr list"
  level :: nat

text \<open>The object written by \<^verbatim>\<open>serializeNode\<close>: the persisted document and the snapshot.\<close>

datatype json =
  JNode (jid: string) (jname: string) (jtitle: string) (jlob: string) (jdivision: string)
    (jdept: string) (jemail: string) (jlevel: nat) (jreports: "json list")

record orgchart =
  heap :: "addr \<Rightarrow> employee"
  nxt :: addr
  root :: "addr option"
  employees :: "(string \<times> addr) list"
  history :: "json list"
  future :: "json list"
  foreign :: bool

text \<open>What a call does: it returns a value, or an exception leaves it.\<close>

datatype 'a outcome = Returned 'a | Thrown

subsection \<open>The dictionary\<close>

text \<open>What \<^verbatim>\<open>this.employees[key]\<close> evaluates to: an employee held under that key, a
  function that every object inherits, the object \<^verbatim>\<open>Object.prototype\<close> (under the key
  \<^verbatim>\<open>__proto__\<close>), or \<^verbatim>\<open>undefined\<close>. Only the last is falsy.\<close>

datatype jsvalue = Member addr | Builtin | ObjectPrototype | Nothing

definition inheritedFunctions :: "string list" where
  "inheritedFunctions =
     [''constructor'', ''hasOwnProperty'', ''isPrototypeOf'', ''propertyIsEnumerable'',
      ''toLocaleString'', ''toString'', ''valueOf'', ''__defineGetter__'',
      ''__defineSetter__'', ''__lookupGetter__'', ''__lookupSetter__'']"

definition property :: "orgchart \<Rightarrow> string \<Rightarrow> jsvalue" where
  "property s key =
     (case map_of (employees s) key of
        Some a \<Rightarrow> Member a
      | None \<Rightarrow>
          if key = ''__proto__'' then ObjectPrototype
          else if key \<in> set inheritedFunctions then Builtin
          else Nothing)"

text \<open>\<^verbatim>\<open>this.employees[key] = employee\<close>.\<close>

definition store :: "string \<Rightarrow> addr \<Rightarrow> orgchart \<Rightarrow> orgchart" where
  "store key e s =
     (if key = ''__proto__'' then s\<lparr>foreign := True\<rparr>
      else s\<lparr>employees := AList.update key e (employees s)\<rparr>)"

text \<open>\<^verbatim>\<open>x.id\<close> of such a value: only an employee has one.\<close>

definition idOf :: "(addr \<Rightarrow> employee) \<Rightarrow> jsvalue \<Rightarrow> string option" where
  "idOf h v = (case v of Member a \<Rightarrow> Some (eid (h a)) | _ \<Rightarrow> None)"

text \<open>An id argument that may be left out: \<^verbatim>\<open>undefined\<close>, \<^verbatim>\<open>null\<close> or a string. As a
  property key the first two are the strings \<^verbatim>\<open>"undefined"\<close> and \<^verbatim>\<open>"null"\<close>; as a
  condition they and the empty string are false.\<close>

datatype jsid = Undefined | Null | Id string

definition keyOf :: "jsid \<Rightarrow> string" where
  "keyOf i = (case i of Undefined \<Rightarrow> ''undefined'' | Null \<Rightarrow> ''null'' | Id k \<Rightarrow> k)"

definition truthy :: "jsid \<Rightarrow> bool" where
  "truthy i = (case i of Id k \<Rightarrow> k \<noteq> [] | _ \<Rightarrow> False)"

text \<open>
  \<^verbatim>\<open>Object.values\<close>: the keys that are array indices (\<^verbatim>\<open>"0"\<close>, or digits with no leading
  zero, below \<open>2^32 - 1\<close>) come first, in ascending numeric order, then all other keys in
  the order they were created.
\<close>

definition digitOf :: "char \<Rightarrow> nat option" where
  "digitOf c = map_of (zip ''0123456789'' [0 ..< 10]) c"

definition arrayIndex :: "string \<Rightarrow> nat option" where
  "arrayIndex k =
     (if k = [] \<or> (\<exists>c \<in> set k. digitOf c = None) \<or> (hd k = CHR ''0'' \<and> tl k \<noteq> []) then None
      else
        let v = foldl (\<lambda>acc c. 10 * acc + (case digitOf c of Some d \<Rightarrow> d | None \<Rightarrow> 0)) 0 k
        in if v < 2 ^ 32 - 1 then Some v else None)"

definition objectValues :: "(string \<times> addr) list \<Rightarrow> addr list" where
  "objectValues al =
     map snd (sort_key (\<lambda>p. case arrayIndex (fst p) of Some v \<Rightarrow> v | None \<Rightarrow> 0)
                (filter (\<lambda>p. arrayIndex (fst p) \<noteq> None) al))
     @ map snd (filter (\<lambda>p. arrayIndex (fst p) = None) al)"

subsection \<open>Employee\<close>

definition Employee ::
  "string \<Rightarrow> string \<Rightarrow> string \<Rightarrow> string \<Rightarrow> string \<Rightarrow> string \<Rightarrow> string \<Rightarrow> addr option \<Rightarrow>
    (addr \<Rightarrow> employee) \<Rightarrow> employee" where
  "Employee uid nm ttl lb dv dp em mgr h =
     \<lparr>eid = uid, ename = nm, etitle = ttl, elob = lb, edivision = dv, edept = dp,
      eemail = em, manager = mgr, reports = [],
      level = (case mgr of Some m \<Rightarrow> level (h m) + 1 | None \<Rightarrow> 0)\<rparr>"

text \<open>\<^verbatim>\<open>this.addReport(employee)\<close>: three assignments, in the program's order.\<close>

definition addReport :: "addr \<Rightarrow> addr \<Rightarrow> (addr \<Rightarrow> employee) \<Rightarrow> (addr \<Rightarrow> employee)" where
  "addReport this e h =
     (let h1 = h(e := (h e)\<lparr>manager := Some this\<rparr>);
          h2 = h1(e := (h1 e)\<lparr>level := level (h1 this) + 1\<rparr>)
      in h2(this := (h2 this)\<lparr>reports := reports (h2 this) @ [e]\<rparr>))"

subsection \<open>Snapshots\<close>

fun serializeNode :: "nat \<Rightarrow> (addr \<Rightarrow> employee) \<Rightarrow> addr \<Rightarrow> json option" where
  "serializeNode 0 h node = None"
| "serializeNode (Suc n) h node =
     (case those (map (serializeNode n h) (reports (h node))) of
        None \<Rightarrow> None
      | Some rs \<Rightarrow>
          Some (JNode (eid (h node)) (ename (h node)) (etitle (h node)) (elob (h node))
                  (edivision (h node)) (edept (h node)) (eemail (h node)) (level (h node)) rs))"

text \<open>\<^verbatim>\<open>_prepareForExport\<close>: with no root, \<^verbatim>\<open>node.id\<close> on \<^verbatim>\<open>null\<close> is a \<^verbatim>\<open>TypeError\<close>.\<close>

definition prepareForExport :: "orgchart \<Rightarrow> json option" where
  "prepareForExport s =
     (case root s of None \<Rightarrow> None | Some r \<Rightarrow> serializeNode (nxt s) (heap s) r)"

definition serializeOrg :: "orgchart \<Rightarrow> json option" where
  "serializeOrg s = prepareForExport s"

definition pushState :: "orgchart \<Rightarrow> orgchart option" where
  "pushState s =
     (case serializeOrg s of
        None \<Rightarrow> None
      | Some snapshot \<Rightarrow> Some (s\<lparr>history := history s @ [snapshot], future := []\<rparr>))"

fun recreateFromJSON :: "json \<Rightarrow> addr option \<Rightarrow> orgchart \<Rightarrow> addr \<times> orgchart" where
  "recreateFromJSON (JNode i nm ttl lb dv dp em lv rs) mgr s =
     (let a = nxt s;
          emp = (Employee i nm ttl lb dv dp em mgr (heap s))\<lparr>eid := i, level := lv\<rparr>;
          s1 = s\<lparr>heap := (heap s)(a := emp), nxt := Suc a\<rparr>;
          s2 = store i a s1;
          s3 = (case mgr of
                  None \<Rightarrow> s2\<lparr>root := Some a\<rparr>
                | Some m \<Rightarrow>
                    s2\<lparr>heap := (heap s2)(m := (heap s2 m)\<lparr>reports := reports (heap s2 m) @ [a]\<rparr>)\<rparr>)
      in (a, fold (\<lambda>child st. snd (recreateFromJSON child (Some a) st)) rs s3))"

definition loadSnapshot :: "json \<Rightarrow> orgchart \<Rightarrow> orgchart" where
  "loadSnapshot snapshot s = snd (recreateFromJSON snapshot None (s\<lparr>employees := []\<rparr>))"

subsection \<open>Undo and redo\<close>

definition undo :: "orgchart \<Rightarrow> bool \<times> orgchart" where
  "undo s =
     (if length (history s) < 2 then (False, s)
      else
        let current = last (history s);
            s1 = s\<lparr>history := butlast (history s)\<rparr>;
            s2 = s1\<lparr>future := future s1 @ [current]\<rparr>;
            previous = last (history s2)
        in (True, loadSnapshot previous s2))"

definition redo :: "orgchart \<Rightarrow> bool \<times> orgchart" where
  "redo s =
     (if length (future s) = 0 then (False, s)
      else
        let snapshot = last (future s);
            s1 = s\<lparr>future := butlast (future s)\<rparr>;
            s2 = s1\<lparr>history := history s1 @ [snapshot]\<rparr>
        in (True, loadSnapshot snapshot s2))"

subsection \<open>The mutations\<close>

definition setRoot :: "addr \<Rightarrow> orgchart \<Rightarrow> unit outcome \<times> orgchart" where
  "setRoot e s =
     (let s1 = s\<lparr>root := Some e\<rparr>;
          s2 = store (eid (heap s1 e)) e s1
      in case pushState s2 of None \<Rightarrow> (Thrown, s2) | Some s3 \<Rightarrow> (Returned (), s3))"

text \<open>
  \<^verbatim>\<open>addEmployee\<close>. When \<^verbatim>\<open>this.employees[managerId]\<close> is an inherited value, it is truthy
  and stays the manager: the employee object is built (the model counts it, nothing
  refers to it) and \<^verbatim>\<open>manager.addReport\<close> is not a function, a \<^verbatim>\<open>TypeError\<close>.
\<close>

definition addEmployee ::
  "string \<Rightarrow> string \<Rightarrow> string \<Rightarrow> jsid \<Rightarrow> string \<Rightarrow> string \<Rightarrow> string \<Rightarrow> string \<Rightarrow>
    orgchart \<Rightarrow> addr option outcome \<times> orgchart" where
  "addEmployee uid nm ttl managerId lb dv dp em s =
     (case root s of
        None \<Rightarrow> (Returned None, s)
      | Some r \<Rightarrow>
          (case pushState s of
             None \<Rightarrow> (Thrown, s)
           | Some s1 \<Rightarrow>
               let found = property s1 (keyOf managerId)
               in if found = Builtin \<or> found = ObjectPrototype
                  then (Thrown, s1\<lparr>nxt := Suc (nxt s1)\<rparr>)
                  else
                    let mgr = (case found of Member m \<Rightarrow> m | _ \<Rightarrow> r);
                        e = nxt s1;
                        s2 = s1\<lparr>heap := (heap s1)
                                  (e := Employee uid nm ttl lb dv dp em (Some mgr) (heap s1)),
                               nxt := Suc e\<rparr>;
                        s3 = s2\<lparr>heap := addReport mgr e (heap s2)\<rparr>;
                        s4 = store (eid (heap s3 e)) e s3
                    in (Returned (Some e), s4)))"

text \<open>
  \<^verbatim>\<open>removeEmployee\<close>. An inherited value passes the check \<^verbatim>\<open>!employee\<close>; after the snapshot
  its \<^verbatim>\<open>reports\<close> is \<^verbatim>\<open>undefined\<close> and \<^verbatim>\<open>.forEach\<close> throws. An inherited value as new manager
  throws at the first \<^verbatim>\<open>newManager.addReport(r)\<close>, so only when there is a report.
\<close>

definition removeEmployee :: "string \<Rightarrow> jsid \<Rightarrow> orgchart \<Rightarrow> bool outcome \<times> orgchart" where
  "removeEmployee employeeId newManagerId s =
     (if (case root s of None \<Rightarrow> False | Some r \<Rightarrow> eid (heap s r) = employeeId)
      then (Returned False, s)
      else
        case property s employeeId of
          Nothing \<Rightarrow> (Returned False, s)
        | Member e \<Rightarrow>
            (case pushState s of
               None \<Rightarrow> (Thrown, s)
             | Some s1 \<Rightarrow>
                 let target = (if truthy newManagerId then property s1 (keyOf newManagerId)
                               else Nothing)
                 in if (target = Builtin \<or> target = ObjectPrototype) \<and> reports (heap s1 e) \<noteq> []
                    then (Thrown, s1)
                    else
                      let h2 = (case target of
                                  Member newManager \<Rightarrow>
                                    fold (\<lambda>r h. addReport newManager r h) (reports (heap s1 e))
                                      (heap s1)
                                | Nothing \<Rightarrow>
                                    fold (\<lambda>r h. h(r := (h r)\<lparr>manager := None\<rparr>))
                                      (reports (heap s1 e)) (heap s1)
                                | _ \<Rightarrow> heap s1);
                          h3 = (case manager (h2 e) of
                                  None \<Rightarrow> h2
                                | Some m \<Rightarrow>
                                    h2(m := (h2 m)\<lparr>reports :=
                                         filter (\<lambda>r. eid (h2 r) \<noteq> eid (h2 e)) (reports (h2 m))\<rparr>))
                      in (Returned True,
                          s1\<lparr>heap := h3, employees := AList.delete employeeId (employees s1)\<rparr>))
        | _ \<Rightarrow> (case pushState s of None \<Rightarrow> (Thrown, s) | Some s1 \<Rightarrow> (Thrown, s1)))"

text \<open>\<^verbatim>\<open>String.prototype.trim\<close>: the white space and line terminators below 256.\<close>

definition isSpace :: "char \<Rightarrow> bool" where
  "isSpace c =
     (c \<in> set [CHR 0x09, CHR 0x0A, CHR 0x0B, CHR 0x0C, CHR 0x0D, CHR 0x20, CHR 0xA0])"

definition trim :: "string \<Rightarrow> string" where
  "trim x = rev (dropWhile isSpace (rev (dropWhile isSpace x)))"

text \<open>\<^verbatim>\<open>x.trim() || old\<close> for a field of \<^verbatim>\<open>newData\<close> that is a string; any other value
  (here \<open>None\<close>) leaves the field alone.\<close>

definition patched :: "string option \<Rightarrow> string \<Rightarrow> string" where
  "patched v old = (case v of None \<Rightarrow> old | Some x \<Rightarrow> if trim x = [] then old else trim x)"

record newData =
  d_name :: "string option"
  d_title :: "string option"
  d_lob :: "string option"
  d_division :: "string option"
  d_dept :: "string option"
  d_email :: "string option"

text \<open>
  \<^verbatim>\<open>editEmployee\<close>. An inherited value passes the check \<^verbatim>\<open>!employee\<close> and the snapshot is
  taken. On an inherited function the write to \<^verbatim>\<open>name\<close> (read-only on functions, and a
  class body is strict code) throws; the other fields are written to that function
  object, which nothing in the engine reads. On \<^verbatim>\<open>Object.prototype\<close> any write is seen by
  every object, which the model does not follow.
\<close>

definition editEmployee :: "string \<Rightarrow> newData \<Rightarrow> orgchart \<Rightarrow> bool outcome \<times> orgchart" where
  "editEmployee employeeId nd s =
     (case property s employeeId of
        Nothing \<Rightarrow> (Returned False, s)
      | Member e \<Rightarrow>
          (case pushState s of
             None \<Rightarrow> (Thrown, s)
           | Some s1 \<Rightarrow>
               let emp = heap s1 e;
                   emp1 = emp\<lparr>ename := patched (d_name nd) (ename emp)\<rparr>;
                   emp2 = emp1\<lparr>etitle := patched (d_title nd) (etitle emp1)\<rparr>;
                   emp3 = emp2\<lparr>elob := patched (d_lob nd) (elob emp2)\<rparr>;
                   emp4 = emp3\<lparr>edivision := patched (d_division nd) (edivision emp3)\<rparr>;
                   emp5 = emp4\<lparr>edept := patched (d_dept nd) (edept emp4)\<rparr>;
                   emp6 = emp5\<lparr>eemail := patched (d_email nd) (eemail emp5)\<rparr>
               in (Returned True, s1\<lparr>heap := (heap s1)(e := emp6)\<rparr>))
      | Builtin \<Rightarrow>
          (case pushState s of
             None \<Rightarrow> (Thrown, s)
           | Some s1 \<Rightarrow> if d_name nd \<noteq> None then (Thrown, s1) else (Returned True, s1))
      | ObjectPrototype \<Rightarrow>
          (case pushState s of
             None \<Rightarrow> (Thrown, s)
           | Some s1 \<Rightarrow>
               if d_name nd = None \<and> d_title nd = None \<and> d_lob nd = None \<and> d_division nd = None
                  \<and> d_dept nd = None \<and> d_email nd = None
               then (Returned True, s1)
               else (Returned True, s1\<lparr>foreign := True\<rparr>)))"

text \<open>The loop of \<^verbatim>\<open>_isDescendant\<close> over \<^verbatim>\<open>root.reports\<close>, with its two early returns;
  \<open>deeper\<close> is the recursive call. The candidate is whatever the dictionary gave, and
  \<^verbatim>\<open>r.id === candidate.id\<close> compares a report's id with its id, if it has one.\<close>

primrec scanReports ::
  "(addr \<Rightarrow> employee) \<Rightarrow> (addr \<Rightarrow> bool option) \<Rightarrow> jsvalue \<Rightarrow> addr list \<Rightarrow> bool option" where
  "scanReports h deeper candidate [] = Some False"
| "scanReports h deeper candidate (r # rs) =
     (if Some (eid (h r)) = idOf h candidate then Some True
      else case deeper r of
             None \<Rightarrow> None
           | Some True \<Rightarrow> Some True
           | Some False \<Rightarrow> scanReports h deeper candidate rs)"

fun isDescendant :: "nat \<Rightarrow> (addr \<Rightarrow> employee) \<Rightarrow> addr \<Rightarrow> jsvalue \<Rightarrow> bool option" where
  "isDescendant 0 h rt candidate = None"
| "isDescendant (Suc n) h rt candidate =
     scanReports h (\<lambda>r. isDescendant n h r candidate) candidate (reports (h rt))"

text \<open>\<^verbatim>\<open>forEach\<close> with a body that may throw.\<close>

primrec forEach :: "('a \<Rightarrow> 's \<Rightarrow> 's option) \<Rightarrow> 'a list \<Rightarrow> 's \<Rightarrow> 's option" where
  "forEach f [] s = Some s"
| "forEach f (x # xs) s = (case f x s of None \<Rightarrow> None | Some s' \<Rightarrow> forEach f xs s')"

fun updateLevels :: "nat \<Rightarrow> addr \<Rightarrow> nat \<Rightarrow> (addr \<Rightarrow> employee) \<Rightarrow> (addr \<Rightarrow> employee) option" where
  "updateLevels 0 node lvl h = None"
| "updateLevels (Suc n) node lvl h =
     (let h1 = h(node := (h node)\<lparr>level := lvl\<rparr>)
      in forEach (\<lambda>r. updateLevels n r (lvl + 1)) (reports (h1 node)) h1)"

text \<open>
  \<^verbatim>\<open>moveSubtree\<close>. With inherited values: two of them have the same \<^verbatim>\<open>id\<close>, \<^verbatim>\<open>undefined\<close>,
  and the move is refused; an inherited value to be moved has no \<^verbatim>\<open>reports\<close> to iterate
  and \<^verbatim>\<open>_isDescendant\<close> throws, before the snapshot; an inherited value as new manager is
  found below nobody, the snapshot is taken, the employee leaves its manager's reports
  and \<^verbatim>\<open>newManager.addReport\<close> throws.
\<close>

definition moveSubtree :: "string \<Rightarrow> string \<Rightarrow> orgchart \<Rightarrow> bool outcome \<times> orgchart" where
  "moveSubtree employeeId newManagerId s =
     (let employee = property s employeeId; newManager = property s newManagerId
      in if employee = Nothing \<or> newManager = Nothing then (Returned False, s)
         else if (case root s of Some r \<Rightarrow> employee = Member r | None \<Rightarrow> False)
         then (Returned False, s)
         else if idOf (heap s) employee = idOf (heap s) newManager then (Returned False, s)
         else
           case employee of
             Member e \<Rightarrow>
               (case isDescendant (nxt s) (heap s) e newManager of
                  None \<Rightarrow> (Thrown, s)
                | Some True \<Rightarrow> (Returned False, s)
                | Some False \<Rightarrow>
                    (case pushState s of
                       None \<Rightarrow> (Thrown, s)
                     | Some s1 \<Rightarrow>
                         let h1 = (case manager (heap s1 e) of
                                     None \<Rightarrow> heap s1
                                   | Some m \<Rightarrow>
                                       (heap s1)(m := (heap s1 m)\<lparr>reports :=
                                          filter (\<lambda>r. eid (heap s1 r) \<noteq> eid (heap s1 e))
                                            (reports (heap s1 m))\<rparr>))
                         in case newManager of
                              Member nm \<Rightarrow>
                                (let h2 = addReport nm e h1
                                 in case updateLevels (nxt s1) e (level (h2 nm) + 1) h2 of
                                      None \<Rightarrow> (Thrown, s1\<lparr>heap := h2\<rparr>)
                                    | Some h3 \<Rightarrow> (Returned True, s1\<lparr>heap := h3\<rparr>))
                            | _ \<Rightarrow> (Thrown, s1\<lparr>heap := h1\<rparr>)))
           | _ \<Rightarrow> (Thrown, s))"

text \<open>The loop of \<^verbatim>\<open>getPath\<close>: it follows \<^verbatim>\<open>manager\<close> up and gives the chain, topmost first.
  It has the same budget as the walks.\<close>

fun climb :: "nat \<Rightarrow> (addr \<Rightarrow> employee) \<Rightarrow> addr option \<Rightarrow> addr list \<Rightarrow> addr list option" where
  "climb n h None path = Some path"
| "climb 0 h (Some c) path = None"
| "climb (Suc n) h (Some c) path = climb n h (manager (h c)) (c # path)"

subsection \<open>Bulk import\<close>

text \<open>A parsed row: a column the file does not have is \<^verbatim>\<open>undefined\<close>, here \<open>None\<close>.\<close>

record csvrow =
  c_name :: "string option"
  c_title :: "string option"
  c_managerName :: "string option"
  c_lob :: "string option"
  c_division :: "string option"
  c_dept :: "string option"
  c_email :: "string option"

text \<open>An entry of \<^verbatim>\<open>pending\<close>: every field is \<^verbatim>\<open>row.x?.trim() || ''\<close>.\<close>

record pendingrow =
  p_name :: string
  p_title :: string
  p_managerName :: string
  p_lob :: string
  p_division :: string
  p_dept :: string
  p_email :: string

definition trimmed :: "string option \<Rightarrow> string" where
  "trimmed v = (case v of None \<Rightarrow> [] | Some x \<Rightarrow> trim x)"

definition normalize :: "csvrow \<Rightarrow> pendingrow" where
  "normalize row =
     \<lparr>p_name = trimmed (c_name row), p_title = trimmed (c_title row),
      p_managerName = trimmed (c_managerName row), p_lob = trimmed (c_lob row),
      p_division = trimmed (c_division row), p_dept = trimmed (c_dept row),
      p_email = trimmed (c_email row)\<rparr>"

text \<open>\<^verbatim>\<open>String.prototype.toLowerCase\<close> on the character codes below 256: the capital
  letters are \<open>A\<close> to \<open>Z\<close> and the codes 192 to 222 except 215, and the small letter is 32
  further.\<close>

definition lowerChar :: "char \<Rightarrow> char" where
  "lowerChar c =
     (let n = (of_char c :: nat)
      in if (65 \<le> n \<and> n \<le> 90) \<or> (192 \<le> n \<and> n \<le> 222 \<and> n \<noteq> 215) then char_of (n + 32) else c)"

definition toLowerCase :: "string \<Rightarrow> string" where
  "toLowerCase x = map lowerChar x"

text \<open>\<^verbatim>\<open>Object.values(this.employees).find(...)\<close>: the first member, in the order of
  \<^verbatim>\<open>Object.values\<close>, whose name is \<open>managerName\<close> up to letter case.\<close>

definition findByName :: "string \<Rightarrow> orgchart \<Rightarrow> addr option" where
  "findByName managerName s =
     find (\<lambda>emp. toLowerCase (ename (heap s emp)) = toLowerCase managerName)
       (objectValues (employees s))"

text \<open>
  One run of the \<^verbatim>\<open>for\<close> loop. The loop index goes from the last entry of \<^verbatim>\<open>pending\<close>
  down to the first and \<^verbatim>\<open>splice(i, 1)\<close> removes the entry just visited, which moves no
  entry still to come: the run is a recursion over the entries in visiting order (the
  argument is \<^verbatim>\<open>pending\<close> reversed). It gives the entries left in \<^verbatim>\<open>pending\<close>, in visiting
  order as well, and \<^verbatim>\<open>addedAny\<close>. The id of the \<open>k\<close>-th object ever built is \<open>uuidv4 k\<close>.
\<close>

fun importPass ::
  "(nat \<Rightarrow> string) \<Rightarrow> pendingrow list \<Rightarrow> orgchart \<Rightarrow> (pendingrow list \<times> bool) outcome \<times> orgchart"
  where
  "importPass uuidv4 [] s = (Returned ([], False), s)"
| "importPass uuidv4 (p # ps) s =
     (if p_name p = [] \<or> p_title p = [] then importPass uuidv4 ps s
      else
        case (if p_managerName p \<noteq> [] then
                (case findByName (p_managerName p) s of
                   None \<Rightarrow> None
                 | Some m \<Rightarrow> Some (Id (eid (heap s m))))
              else Some Null) of
          None \<Rightarrow>
            (case importPass uuidv4 ps s of
               (Returned (left, addedAny), s') \<Rightarrow> (Returned (p # left, addedAny), s')
             | (Thrown, s') \<Rightarrow> (Thrown, s'))
        | Some found \<Rightarrow>
            let managerId =
                  (if p_managerName p = [] \<or> \<not> truthy found
                   then (case root s of Some r \<Rightarrow> Id (eid (heap s r)) | None \<Rightarrow> Null)
                   else found)
            in case addEmployee (uuidv4 (nxt s)) (p_name p) (p_title p) managerId (p_lob p)
                      (p_division p) (p_dept p) (p_email p) s of
                 (Thrown, s') \<Rightarrow> (Thrown, s')
               | (Returned _, s') \<Rightarrow>
                   (case importPass uuidv4 ps s' of
                      (Returned (left, addedAny), s'') \<Rightarrow> (Returned (left, True), s'')
                    | (Thrown, s'') \<Rightarrow> (Thrown, s'')))"

text \<open>The \<^verbatim>\<open>while (pending.length && addedAny)\<close> loop; it gives the rows still pending.\<close>

function importLoop ::
  "(nat \<Rightarrow> string) \<Rightarrow> pendingrow list \<Rightarrow> orgchart \<Rightarrow> pendingrow list outcome \<times> orgchart"
  where
  "importLoop uuidv4 pending s =
     (if pending = [] then (Returned pending, s)
      else
        case importPass uuidv4 (rev pending) s of
          (Thrown, s') \<Rightarrow> (Thrown, s')
        | (Returned (left, addedAny), s') \<Rightarrow>
            if addedAny then importLoop uuidv4 (rev left) s' else (Returned (rev left), s'))"
  by pat_completeness auto
termination
proof (relation "measure (\<lambda>(uuidv4, pending, s). length pending)")
  show "wf (measure (\<lambda>(uuidv4, pending, s). length pending))"
    by simp
next
  fix uuidv4 :: "nat \<Rightarrow> string" and pending :: "pendingrow list" and s :: orgchart
    and x y x2 xa ya
  assume run: "(x, y) = importPass uuidv4 (rev pending) s" "x = Returned x2" "(xa, ya) = x2" "ya"
  have shorter: "importPass g ps t = (Returned (left, True), t') \<Longrightarrow> length left < length ps"
    for g ps t left t'
  proof (induction ps arbitrary: t left t')
    case Nil
    then show ?case by simp
  next
    case (Cons p ps)
    have weak: "importPass g qs u = (Returned (l, b), u') \<Longrightarrow> length l \<le> length qs" for qs u l b u'
    proof (induction qs arbitrary: u l b u')
      case Nil
      then show ?case by simp
    next
      case (Cons q qs)
      show ?case
        using Cons.prems Cons.IH
        by (fastforce simp: Let_def split: if_splits option.splits prod.splits outcome.splits)
    qed
    show ?case
      using Cons.prems Cons.IH weak
      by (fastforce simp: Let_def split: if_splits option.splits prod.splits outcome.splits)
  qed
  from run have "importPass uuidv4 (rev pending) s = (Returned (xa, True), y)"
    by (metis (full_types))
  from shorter [OF this]
  show "((uuidv4, rev xa, y), (uuidv4, pending, s)) \<in> measure (\<lambda>(uuidv4, pending, s). length pending)"
    by simp
qed

text \<open>
  \<^verbatim>\<open>importFromCSV\<close>, from the parsed rows on (reading and parsing the file is outside the
  engine). Its \<^verbatim>\<open>catch\<close> turns any exception into the result \<^verbatim>\<open>false\<close>. The second
  component is the number of rows the last log line reports as not imported.
\<close>

definition importFromCSV ::
  "(nat \<Rightarrow> string) \<Rightarrow> csvrow list \<Rightarrow> orgchart \<Rightarrow> (bool \<times> nat) \<times> orgchart" where
  "importFromCSV uuidv4 rows s =
     (if rows = [] then ((False, 0), s)
      else
        case pushState s of
          None \<Rightarrow> ((False, 0), s)
        | Some s1 \<Rightarrow>
            (case importLoop uuidv4 (map normalize rows) s1 of
               (Thrown, s') \<Rightarrow> ((False, 0), s')
             | (Returned pending, s') \<Rightarrow> ((True, length pending), s')))"

subsection \<open>Starting a chart\<close>

text \<open>\<^verbatim>\<open>new OrgChart()\<close> before any employee object exists.\<close>

definition noEmployee :: employee where
  "noEmployee =
     \<lparr>eid = [], ename = [], etitle = [], elob = [], edivision = [], edept = [], eemail = [],
      manager = None, reports = [], level = 0\<rparr>"

definition OrgChart :: orgchart where
  "OrgChart =
     \<lparr>heap = (\<lambda>_. noEmployee), nxt = 0, root = None, employees = [], history = [], future = [],
      foreign = False\<rparr>"

text \<open>The two statements \<^verbatim>\<open>const ceo = new Employee(name, ..., null); setRoot(ceo)\<close> of
  the application.\<close>

definition newRoot ::
  "string \<Rightarrow> string \<Rightarrow> string \<Rightarrow> string \<Rightarrow> string \<Rightarrow> string \<Rightarrow> string \<Rightarrow> orgchart \<Rightarrow>
    unit outcome \<times> orgchart" where
  "newRoot uid nm ttl lb dv dp em s =
     (let ceo = nxt s;
          s1 = s\<lparr>heap := (heap s)(ceo := Employee uid nm ttl lb dv dp em None (heap s)),
                nxt := Suc ceo\<rparr>
      in setRoot ceo s1)"

text \<open>\<^verbatim>\<open>createNewOrgChart\<close> of the application, after its prompts: a fresh chart, then the
  two statements above. Objects of the chart given up stay in the store, unreachable.\<close>

definition createNewOrgChart ::
  "string \<Rightarrow> string \<Rightarrow> string \<Rightarrow> string \<Rightarrow> string \<Rightarrow> string \<Rightarrow> string \<Rightarrow> orgchart \<Rightarrow>
    unit outcome \<times> orgchart" where
  "createNewOrgChart uid nm ttl lb dv dp em s =
     newRoot uid nm ttl lb dv dp em (s\<lparr>root := None, employees := [], history := [], future := []\<rparr>)"

section \<open>Valid trees\<close>

text \<open>
  The members of the chart are the objects held by the dictionary. The program keeps
  each parent/child edge twice (the child's \<^verbatim>\<open>manager\<close> and the parent's \<^verbatim>\<open>reports\<close>) and
  each id twice (the key and the object's \<^verbatim>\<open>id\<close>); \<open>coherent\<close> says that the copies
  agree, which is what the data model means by deriving the report set from the manager
  field, and that the dictionary is still a plain object. \<open>inv1\<close> to \<open>inv4\<close> are the four invariants of the data model, and a valid tree is
  a coherent one that satisfies them.
\<close>

definition members :: "orgchart \<Rightarrow> addr set" where
  "members s = snd ` set (employees s)"

definition coherent :: "orgchart \<Rightarrow> bool" where
  "coherent s \<longleftrightarrow>
     \<not> foreign s \<and> distinct (map fst (employees s)) \<and> distinct (map snd (employees s))
     \<and> (\<forall>(k, a) \<in> set (employees s). a < nxt s \<and> eid (heap s a) = k)
     \<and> (root s = None \<longrightarrow> employees s = []) \<and> (\<forall>r. root s = Some r \<longrightarrow> r \<in> members s)
     \<and> (\<forall>a \<in> members s. distinct (reports (heap s a))
            \<and> (\<forall>b \<in> set (reports (heap s a)). b \<in> members s \<and> manager (heap s b) = Some a))
     \<and> (\<forall>a \<in> members s. \<forall>m. manager (heap s a) = Some m \<longrightarrow> a \<in> set (reports (heap s m)))"

text \<open>Exactly one member has no manager, the root; or the store is empty.\<close>

definition inv1 :: "orgchart \<Rightarrow> bool" where
  "inv1 s \<longleftrightarrow>
     (root s = None \<longrightarrow> employees s = [])
     \<and> (\<forall>r. root s = Some r \<longrightarrow> (\<forall>a \<in> members s. (manager (heap s a) = None) = (a = r)))"

text \<open>Following \<^verbatim>\<open>manager\<close> from any member ends, and ends at the root.\<close>

definition inv2 :: "orgchart \<Rightarrow> bool" where
  "inv2 s \<longleftrightarrow>
     (\<forall>a \<in> members s.
        \<exists>path. climb (nxt s) (heap s) (Some a) [] = Some path \<and> root s = Some (hd path))"

text \<open>The level is 0 without a manager and the manager's level plus one with one.\<close>

definition inv3 :: "orgchart \<Rightarrow> bool" where
  "inv3 s \<longleftrightarrow>
     (\<forall>a \<in> members s.
        (manager (heap s a) = None \<longrightarrow> level (heap s a) = 0)
        \<and> (\<forall>m. manager (heap s a) = Some m \<longrightarrow> level (heap s a) = level (heap s m) + 1))"

text \<open>Every manager is a member.\<close>

definition inv4 :: "orgchart \<Rightarrow> bool" where
  "inv4 s \<longleftrightarrow> (\<forall>a \<in> members s. \<forall>m. manager (heap s a) = Some m \<longrightarrow> m \<in> members s)"

definition valid :: "orgchart \<Rightarrow> bool" where
  "valid s \<longleftrightarrow> coherent s \<and> inv1 s \<and> inv2 s \<and> inv3 s \<and> inv4 s"

text \<open>\<open>reach h a c\<close>: \<open>c\<close> lies in the subtree of \<open>a\<close>, below \<open>a\<close>: a path of direct-report
  edges leads from \<open>a\<close> to \<open>c\<close>. \<open>below h a d c\<close> counts the edges.\<close>

inductive reach :: "(addr \<Rightarrow> employee) \<Rightarrow> addr \<Rightarrow> addr \<Rightarrow> bool" for h where
  direct: "r \<in> set (reports (h a)) \<Longrightarrow> reach h a r"
| deeper: "r \<in> set (reports (h a)) \<Longrightarrow> reach h r c \<Longrightarrow> reach h a c"

inductive below :: "(addr \<Rightarrow> employee) \<Rightarrow> addr \<Rightarrow> nat \<Rightarrow> addr \<Rightarrow> bool" for h a where
  self: "below h a 0 a"
| step: "below h a d m \<Longrightarrow> r \<in> set (reports (h m)) \<Longrightarrow> below h a (Suc d) r"


text \<open>The subtree of \<open>a\<close>, \<open>a\<close> included, and a store whose levels on a set of objects are
  given by a function.\<close>

definition sub :: "(addr \<Rightarrow> employee) \<Rightarrow> addr \<Rightarrow> addr set" where
  "sub h a = insert a {c. reach h a c}"

definition relevel :: "addr set \<Rightarrow> (addr \<Rightarrow> nat) \<Rightarrow> (addr \<Rightarrow> employee) \<Rightarrow> (addr \<Rightarrow> employee)" where
  "relevel S f h = (\<lambda>x. if x \<in> S then (h x)\<lparr>level := f x\<rparr> else h x)"

text \<open>The store after \<open>e\<close> has moved under \<open>b\<close>: \<open>e\<close> has left its old manager's reports
  and closes the reports of \<open>b\<close>, and the levels in the subtree of \<open>e\<close> are shifted so
  that \<open>e\<close> sits one below \<open>b\<close>.\<close>

definition moved :: "addr \<Rightarrow> addr \<Rightarrow> (addr \<Rightarrow> employee) \<Rightarrow> (addr \<Rightarrow> employee)" where
  "moved e b h =
     (\<lambda>x. (h x)\<lparr>manager := (if x = e then Some b else manager (h x)),
                 reports := removeAll e (reports (h x)) @ (if x = b then [e] else []),
                 level := (if x \<in> sub h e
                           then level (h b) + 1 + (level (h x) - level (h e))
                           else level (h x))\<rparr>)"

text \<open>
  The five mutations as data, for sequences of them. \<open>perform\<close> runs one and says
  whether it returned; \<open>run\<close> runs a sequence and stops at the first call that throws.
\<close>

datatype mutation =
  SetRoot string string string string string string string
| AddMember string string string jsid string string string string
| EditMember string newData
| RemoveMember string jsid
| MoveSubtree string string

definition returned :: "'a outcome \<times> orgchart \<Rightarrow> bool \<times> orgchart" where
  "returned result = (case result of (Returned _, s) \<Rightarrow> (True, s) | (Thrown, s) \<Rightarrow> (False, s))"

fun perform :: "mutation \<Rightarrow> orgchart \<Rightarrow> bool \<times> orgchart" where
  "perform (SetRoot uid nm ttl lb dv dp em) s = returned (newRoot uid nm ttl lb dv dp em s)"
| "perform (AddMember uid nm ttl managerId lb dv dp em) s =
     returned (addEmployee uid nm ttl managerId lb dv dp em s)"
| "perform (EditMember k nd) s = returned (editEmployee k nd s)"
| "perform (RemoveMember k newManagerId) s = returned (removeEmployee k newManagerId s)"
| "perform (MoveSubtree k m) s = returned (moveSubtree k m s)"

fun run :: "mutation list \<Rightarrow> orgchart \<Rightarrow> bool \<times> orgchart" where
  "run [] s = (True, s)"
| "run (m # ms) s = (case perform m s of (True, s') \<Rightarrow> run ms s' | (False, s') \<Rightarrow> (False, s'))"




text \<open>
  Documents. \<open>sz\<close> counts the nodes of a document, \<open>subdocs\<close> lists them parent first
  (the order in which \<^verbatim>\<open>_recreateFromJSON\<close> builds the objects), \<open>ids\<close> lists their ids in
  that order and \<open>below_ids\<close> the ids strictly below the top node.
\<close>

fun sz :: "json \<Rightarrow> nat" where
  "sz (JNode i nm ttl lb dv dp em lv ds) = Suc (sum_list (map sz ds))"

fun subdocs :: "json \<Rightarrow> json list" where
  "subdocs (JNode i nm ttl lb dv dp em lv ds) =
     JNode i nm ttl lb dv dp em lv ds # concat (map subdocs ds)"

definition ids :: "json \<Rightarrow> string list" where
  "ids d = map jid (subdocs d)"


text \<open>
  \<open>laid h m a d\<close>: the store holds the document \<open>d\<close> in the objects \<open>a\<close>, \<open>a + 1\<close>, ...,
  parent first, with manager \<open>m\<close> at the top; the reports of each object are the objects
  of its child documents, in order.
\<close>

fun starts :: "addr \<Rightarrow> json list \<Rightarrow> addr list" where
  "starts n [] = []"
| "starts n (d # ds) = n # starts (n + sz d) ds"

fun laid :: "(addr \<Rightarrow> employee) \<Rightarrow> addr option \<Rightarrow> addr \<Rightarrow> json \<Rightarrow> bool"
  and laids :: "(addr \<Rightarrow> employee) \<Rightarrow> addr \<Rightarrow> addr \<Rightarrow> json list \<Rightarrow> bool" where
  "laid h m a (JNode i nm ttl lb dv dp em lv ds) \<longleftrightarrow>
     eid (h a) = i \<and> ename (h a) = nm \<and> etitle (h a) = ttl \<and> elob (h a) = lb
     \<and> edivision (h a) = dv \<and> edept (h a) = dp \<and> eemail (h a) = em \<and> level (h a) = lv
     \<and> manager (h a) = m \<and> reports (h a) = starts (Suc a) ds \<and> laids h a (Suc a) ds"
| "laids h p n [] \<longleftrightarrow> True"
| "laids h p n (d # ds) \<longleftrightarrow> laid h (Some p) n d \<and> laids h p (n + sz d) ds"

text \<open>
  The loop \<^verbatim>\<open>obj.reports.forEach((child) => this._recreateFromJSON(child, employee))\<close> on its
  own, and what a run of it has done to the state: \<open>grown ds mgr s s'\<close> says that \<open>s'\<close> is \<open>s\<close>
  with the documents \<open>ds\<close> built one after the other as reports of \<open>mgr\<close>.
\<close>

definition recreateAll :: "json list \<Rightarrow> addr \<Rightarrow> orgchart \<Rightarrow> orgchart" where
  "recreateAll ds a s = fold (\<lambda>child st. snd (recreateFromJSON child (Some a) st)) ds s"

definition grown :: "json list \<Rightarrow> addr option \<Rightarrow> orgchart \<Rightarrow> orgchart \<Rightarrow> bool" where
  "grown ds mgr s s' \<longleftrightarrow>
     nxt s' = nxt s + sum_list (map sz ds)
     \<and> (\<forall>x<nxt s. heap s' x =
          (if mgr = Some x then (heap s x)\<lparr>reports := reports (heap s x) @ starts (nxt s) ds\<rparr>
           else heap s x))
     \<and> employees s' =
         AList.updates (concat (map ids ds)) [nxt s ..< nxt s + sum_list (map sz ds)] (employees s)
     \<and> history s' = history s \<and> future s' = future s \<and> foreign s' = foreign s"

text \<open>
  What the data model records of one member: the id, the six text fields, the level and
  the parent/child edges, as the id of the manager and the ids of the reports in their
  order. \<open>table\<close> lists the dictionary, each key with the entry of the object it holds;
  \<open>entries\<close> reads the same entries off a document, \<open>m\<close> being the id of the manager of the
  top node.
\<close>

record entry =
  e_id :: string
  e_name :: string
  e_title :: string
  e_lob :: string
  e_division :: string
  e_dept :: string
  e_email :: string
  e_level :: nat
  e_manager :: "string option"
  e_reports :: "string list"

definition entryOf :: "(addr \<Rightarrow> employee) \<Rightarrow> addr \<Rightarrow> entry" where
  "entryOf h a =
     \<lparr>e_id = eid (h a), e_name = ename (h a), e_title = etitle (h a), e_lob = elob (h a),
      e_division = edivision (h a), e_dept = edept (h a), e_email = eemail (h a),
      e_level = level (h a), e_manager = map_option (\<lambda>m. eid (h m)) (manager (h a)),
      e_reports = map (\<lambda>r. eid (h r)) (reports (h a))\<rparr>"

definition table :: "orgchart \<Rightarrow> (string \<times> entry) set" where
  "table s = (\<lambda>(k, a). (k, entryOf (heap s) a)) ` set (employees s)"

definition rootId :: "orgchart \<Rightarrow> string option" where
  "rootId s = map_option (\<lambda>r. eid (heap s r)) (root s)"

fun entries :: "string option \<Rightarrow> json \<Rightarrow> entry list" where
  "entries m (JNode i nm ttl lb dv dp em lv ds) =
     \<lparr>e_id = i, e_name = nm, e_title = ttl, e_lob = lb, e_division = dv, e_dept = dp,
      e_email = em, e_level = lv, e_manager = m, e_reports = map jid ds\<rparr>
     # concat (map (entries (Some i)) ds)"

subsection \<open>Three charts used as concrete inputs\<close>

text \<open>A root alone; the root with Ann under it; Bob under Ann in addition.\<close>

definition chart0 :: orgchart where
  "chart0 = snd (createNewOrgChart ''r'' ''Root'' ''CEO'' [] [] [] [] OrgChart)"

definition chart1 :: orgchart where
  "chart1 = snd (addEmployee ''a'' ''Ann'' ''VP'' (Id ''r'') [] [] [] [] chart0)"

definition chart2 :: orgchart where
  "chart2 = snd (addEmployee ''b'' ''Bob'' ''Eng'' (Id ''a'') [] [] [] [] chart1)"

definition doc0 :: json where
  "doc0 = JNode ''r'' ''Root'' ''CEO'' [] [] [] [] 0 []"

definition doc1 :: json where
  "doc1 = JNode ''r'' ''Root'' ''CEO'' [] [] [] [] 0 [JNode ''a'' ''Ann'' ''VP'' [] [] [] [] 1 []]"

definition doc2 :: json where
  "doc2 =
     JNode ''r'' ''Root'' ''CEO'' [] [] [] [] 0
       [JNode ''a'' ''Ann'' ''VP'' [] [] [] [] 1 [JNode ''b'' ''Bob'' ''Eng'' [] [] [] [] 2 []]]"

text \<open>A patch that names no field.\<close>

definition noData :: newData where
  "noData =
     \<lparr>d_name = None, d_title = None, d_lob = None, d_division = None, d_dept = None,
      d_email = None\<rparr>"

section \<open>Facts about the concrete charts\<close>

lemmas run_defs =
  createNewOrgChart_def setRoot_def addEmployee_def pushState_def serializeOrg_def
  prepareForExport_def OrgChart_def Employee_def addReport_def noEmployee_def Let_def
  property_def store_def keyOf_def newRoot_def

lemma chart0_eq:
  "chart0 =
     \<lparr>heap = (\<lambda>_. noEmployee)
        (0 := \<lparr>eid = ''r'', ename = ''Root'', etitle = ''CEO'', elob = [], edivision = [],
               edept = [], eemail = [], manager = None, reports = [], level = 0\<rparr>),
      nxt = 1, root = Some 0, employees = [(''r'', 0)], history = [doc0], future = [],
      foreign = False\<rparr>"
  by (simp add: chart0_def doc0_def run_defs)

lemma chart1_eq:
  "chart1 =
     \<lparr>heap = (\<lambda>_. noEmployee)
        (0 := \<lparr>eid = ''r'', ename = ''Root'', etitle = ''CEO'', elob = [], edivision = [],
               edept = [], eemail = [], manager = None, reports = [1], level = 0\<rparr>,
         1 := \<lparr>eid = ''a'', ename = ''Ann'', etitle = ''VP'', elob = [], edivision = [],
               edept = [], eemail = [], manager = Some 0, reports = [], level = 1\<rparr>),
      nxt = 2, root = Some 0, employees = [(''r'', 0), (''a'', 1)],
      history = [doc0, doc0], future = [],
      foreign = False\<rparr>"
  by (simp add: chart1_def chart0_eq doc0_def addEmployee_def pushState_def serializeOrg_def
      prepareForExport_def Employee_def addReport_def Let_def fun_upd_twist
      property_def store_def keyOf_def)

lemma chart2_eq:
  "chart2 =
     \<lparr>heap = (\<lambda>_. noEmployee)
        (0 := \<lparr>eid = ''r'', ename = ''Root'', etitle = ''CEO'', elob = [], edivision = [],
               edept = [], eemail = [], manager = None, reports = [1], level = 0\<rparr>,
         1 := \<lparr>eid = ''a'', ename = ''Ann'', etitle = ''VP'', elob = [], edivision = [],
               edept = [], eemail = [], manager = Some 0, reports = [2], level = 1\<rparr>,
         2 := \<lparr>eid = ''b'', ename = ''Bob'', etitle = ''Eng'', elob = [], edivision = [],
               edept = [], eemail = [], manager = Some 1, reports = [], level = 2\<rparr>),
      nxt = 3, root = Some 0, employees = [(''r'', 0), (''a'', 1), (''b'', 2)],
      history = [doc0, doc0, doc1], future = [],
      foreign = False\<rparr>"
  by (simp add: chart2_def chart1_eq doc0_def doc1_def addEmployee_def pushState_def
      serializeOrg_def prepareForExport_def Employee_def addReport_def Let_def
      numeral_2_eq_2 fun_upd_twist property_def store_def keyOf_def)

lemma export_chart0: "prepareForExport chart0 = Some doc0"
  by (simp add: chart0_eq doc0_def prepareForExport_def)

lemma export_chart1: "prepareForExport chart1 = Some doc1"
  by (simp add: chart1_eq doc1_def prepareForExport_def numeral_2_eq_2)

lemma export_chart2: "prepareForExport chart2 = Some doc2"
  by (simp add: chart2_eq doc2_def prepareForExport_def numeral_3_eq_3)




section \<open>Validity of the concrete charts\<close>

lemmas valid_defs = valid_def coherent_def inv1_def inv2_def inv3_def inv4_def members_def

lemma valid_OrgChart: "valid OrgChart"
  by (simp add: valid_defs OrgChart_def)

lemma valid_chart0: "valid chart0"
  by (simp add: valid_defs chart0_eq)


lemma valid_chart2: "valid chart2"
  by (simp add: valid_defs chart2_eq numeral_eq_Suc)

section \<open>Levels are smaller than the number of objects\<close>

lemma level_card:
  assumes c: "coherent s" and i3: "inv3 s" and i4: "inv4 s"
  shows "a \<in> members s \<Longrightarrow> level (heap s a) = l \<Longrightarrow>
     l < card {b \<in> members s. level (heap s b) \<le> l}"
proof (induction l arbitrary: a)
  case 0
  have "finite (members s)" by (simp add: members_def)
  moreover have "a \<in> {b \<in> members s. level (heap s b) \<le> 0}" using 0 by simp
  ultimately show ?case
    by (metis (no_types, lifting) card_gt_0_iff empty_iff finite_subset mem_Collect_eq subsetI)
next
  case (Suc l)
  from Suc.prems i3 obtain m where m: "manager (heap s a) = Some m" "level (heap s m) = l"
    by (cases "manager (heap s a)") (auto simp: inv3_def dest!: bspec)
  with i4 Suc.prems have "m \<in> members s" by (auto simp: inv4_def)
  from Suc.IH [OF this m(2)] have less: "l < card {b \<in> members s. level (heap s b) \<le> l}" .
  have fin: "finite {b \<in> members s. level (heap s b) \<le> Suc l}" by (simp add: members_def)
  have "insert a {b \<in> members s. level (heap s b) \<le> l}
      \<subseteq> {b \<in> members s. level (heap s b) \<le> Suc l}"
    using Suc.prems by auto
  then have "card (insert a {b \<in> members s. level (heap s b) \<le> l})
      \<le> card {b \<in> members s. level (heap s b) \<le> Suc l}"
    using fin by (rule card_mono [rotated])
  moreover have "a \<notin> {b \<in> members s. level (heap s b) \<le> l}" using Suc.prems by simp
  moreover have "finite {b \<in> members s. level (heap s b) \<le> l}" by (simp add: members_def)
  ultimately show ?case using less by simp
qed

lemma members_bound: "coherent s \<Longrightarrow> card (members s) \<le> nxt s"
proof -
  assume c: "coherent s"
  then have "members s \<subseteq> {..<nxt s}" by (auto simp: coherent_def members_def)
  then have "card (members s) \<le> card {..<nxt s}" by (intro card_mono) auto
  then show ?thesis by simp
qed

lemma level_bound:
  assumes "coherent s" "inv3 s" "inv4 s" "a \<in> members s"
  shows "level (heap s a) < nxt s"
proof -
  have "level (heap s a) < card {b \<in> members s. level (heap s b) \<le> level (heap s a)}"
    using level_card [OF assms(1-3) assms(4) refl] .
  also have "\<dots> \<le> card (members s)"
    by (intro card_mono) (auto simp: members_def)
  also have "\<dots> \<le> nxt s" using assms(1) by (rule members_bound)
  finally show ?thesis .
qed

section \<open>A valid tree can be serialized\<close>

lemma those_map_Some:
  "(\<And>x. x \<in> set xs \<Longrightarrow> \<exists>y. f x = Some y) \<Longrightarrow> \<exists>ys. those (map f xs) = Some ys"
proof (induction xs)
  case Nil
  then show ?case by simp
next
  case (Cons x xs)
  then obtain y ys where "f x = Some y" "those (map f xs) = Some ys"
    by (meson list.set_intros)
  then show ?case by simp
qed

lemma member_child:
  assumes "coherent s" "inv3 s" "a \<in> members s" "c \<in> set (reports (heap s a))"
  shows "c \<in> members s \<and> manager (heap s c) = Some a \<and> level (heap s c) = Suc (level (heap s a))"
proof -
  from assms(1,3,4) have 1: "c \<in> members s" "manager (heap s c) = Some a"
    unfolding coherent_def by blast+
  from assms(2) 1(1) have "\<forall>m. manager (heap s c) = Some m \<longrightarrow> level (heap s c) = level (heap s m) + 1"
    unfolding inv3_def by blast
  with 1 show ?thesis by simp
qed

lemma serializeNode_total:
  assumes c: "coherent s" and i3: "inv3 s" and i4: "inv4 s"
  shows "a \<in> members s \<Longrightarrow> nxt s - level (heap s a) \<le> n \<Longrightarrow>
     \<exists>d. serializeNode n (heap s) a = Some d"
proof (induction n arbitrary: a)
  case 0
  with level_bound [OF c i3 i4, of a] show ?case by simp
next
  case (Suc n)
  have "\<exists>d. serializeNode n (heap s) r = Some d" if "r \<in> set (reports (heap s a))" for r
  proof -
    from member_child [OF c i3 Suc.prems(1) that]
    have "r \<in> members s" "level (heap s r) = Suc (level (heap s a))" by simp_all
    with Suc.prems(2) show ?thesis by (intro Suc.IH) simp_all
  qed
  from those_map_Some [of "reports (heap s a)" "serializeNode n (heap s)", OF this]
  obtain ys where "those (map (serializeNode n (heap s)) (reports (heap s a))) = Some ys" by blast
  then show ?case by simp
qed

lemma prepareForExport_valid:
  assumes "valid s" "root s = Some r"
  shows "\<exists>d. prepareForExport s = Some d"
proof -
  from assms have "r \<in> members s" by (simp add: valid_def coherent_def)
  from serializeNode_total [OF _ _ _ this, of "nxt s"] assms
  show ?thesis by (simp add: valid_def prepareForExport_def)
qed

lemma pushState_valid:
  assumes "valid s" "root s = Some r"
  shows "\<exists>d. prepareForExport s = Some d \<and> pushState s = Some (s\<lparr>history := history s @ [d], future := []\<rparr>)"
  using prepareForExport_valid [OF assms] by (auto simp: pushState_def serializeOrg_def)

lemma members_upd [simp]:
  "members (s\<lparr>history := hs\<rparr>) = members s" "members (s\<lparr>future := fs\<rparr>) = members s"
  by (simp_all add: members_def)

lemma valid_history [simp]:
  "valid (s\<lparr>history := hs\<rparr>) = valid s" "valid (s\<lparr>future := fs\<rparr>) = valid s"
  by (simp_all add: valid_def coherent_def inv1_def inv2_def inv3_def inv4_def)

lemma property_update [simp]:
  "property (s\<lparr>history := hs\<rparr>) k = property s k" "property (s\<lparr>future := fs\<rparr>) k = property s k"
  "property (s\<lparr>heap := h\<rparr>) k = property s k" "property (s\<lparr>nxt := n\<rparr>) k = property s k"
  by (simp_all add: property_def)

lemma property_Member: "map_of (employees s) k = Some a \<Longrightarrow> property s k = Member a"
  by (simp add: property_def)

lemma property_Member_iff: "property s k = Member a \<longleftrightarrow> map_of (employees s) k = Some a"
  by (simp add: property_def split: option.splits)


lemma addEmployee_inherited:
  assumes r: "root s = Some r" and d: "prepareForExport s = Some d"
    and alien: "property s (keyOf managerId) = Builtin \<or> property s (keyOf managerId) = ObjectPrototype"
  shows "addEmployee uid nm ttl managerId lb dv dp em s =
     (Thrown, s\<lparr>nxt := Suc (nxt s), history := history s @ [d], future := []\<rparr>)"
  using alien by (auto simp: addEmployee_def r d pushState_def serializeOrg_def Let_def)


section \<open>Consequences of validity\<close>

lemma coherent_plain: "coherent s \<Longrightarrow> \<not> foreign s"
  unfolding coherent_def by blast

lemma coherentD:
  assumes "coherent s"
  shows "distinct (map fst (employees s))" "distinct (map snd (employees s))"
    "(k, a) \<in> set (employees s) \<Longrightarrow> a < nxt s \<and> eid (heap s a) = k"
    "root s = None \<Longrightarrow> employees s = []" "root s = Some r \<Longrightarrow> r \<in> members s"
    "a \<in> members s \<Longrightarrow> distinct (reports (heap s a))"
    "a \<in> members s \<Longrightarrow> b \<in> set (reports (heap s a)) \<Longrightarrow> b \<in> members s \<and> manager (heap s b) = Some a"
    "a \<in> members s \<Longrightarrow> manager (heap s a) = Some m \<Longrightarrow> a \<in> set (reports (heap s m))"
  using assms unfolding coherent_def by blast+

lemma member_key:
  assumes "coherent s" "a \<in> members s"
  shows "(eid (heap s a), a) \<in> set (employees s)" "a < nxt s"
proof -
  from assms(2) obtain k where k: "(k, a) \<in> set (employees s)"
    unfolding members_def by force
  from coherentD(3) [OF assms(1) this] k
  show "(eid (heap s a), a) \<in> set (employees s)" "a < nxt s" by simp_all
qed

lemma member_lookup:
  assumes "coherent s"
  shows "map_of (employees s) k = Some a \<longleftrightarrow> a \<in> members s \<and> eid (heap s a) = k"
proof
  assume "map_of (employees s) k = Some a"
  then have "(k, a) \<in> set (employees s)" by (rule map_of_SomeD)
  with coherentD(3) [OF assms this] show "a \<in> members s \<and> eid (heap s a) = k"
    unfolding members_def by force
next
  assume "a \<in> members s \<and> eid (heap s a) = k"
  with member_key(1) [OF assms] have "(k, a) \<in> set (employees s)" by blast
  with coherentD(1) [OF assms] show "map_of (employees s) k = Some a" by simp
qed

lemma eid_inj:
  assumes "coherent s" "a \<in> members s" "b \<in> members s" "eid (heap s a) = eid (heap s b)"
  shows "a = b"
proof -
  from assms have "map_of (employees s) (eid (heap s a)) = Some a"
    "map_of (employees s) (eid (heap s a)) = Some b"
    by (simp_all add: member_lookup)
  then show ?thesis by simp
qed

lemma valid_iff: "valid s \<longleftrightarrow> coherent s \<and> inv1 s \<and> inv3 s \<and> inv4 s"
proof -
  have "inv2 s" if c: "coherent s" and i1: "inv1 s" and i3: "inv3 s" and i4: "inv4 s"
    unfolding inv2_def
  proof
    fix a assume a: "a \<in> members s"
    then have "employees s \<noteq> []" unfolding members_def by auto
    with coherentD(4) [OF c] obtain r where r: "root s = Some r" by (cases "root s") auto
    have climb_root: "b \<in> members s \<Longrightarrow> level (heap s b) < n \<Longrightarrow>
        \<exists>q. climb n (heap s) (Some b) p = Some (r # q)" for b n p
    proof (induction n arbitrary: b p)
      case 0
      then show ?case by simp
    next
      case (Suc n)
      show ?case
      proof (cases "manager (heap s b)")
        case None
        with i1 r Suc.prems(1) have "b = r" unfolding inv1_def by blast
        with None show ?thesis by simp
      next
        case (Some m)
        with i4 Suc.prems(1) have m: "m \<in> members s" unfolding inv4_def by blast
        from i3 Suc.prems(1) Some have "level (heap s b) = level (heap s m) + 1"
          unfolding inv3_def by blast
        with Suc.prems(2) have "level (heap s m) < n" by simp
        from Suc.IH [OF m this, of "b # p"] Some show ?thesis by simp
      qed
    qed
    from climb_root [OF a level_bound [OF c i3 i4 a], of "[]"] r
    show "\<exists>path. climb (nxt s) (heap s) (Some a) [] = Some path \<and> root s = Some (hd path)"
      by auto
  qed
  then show ?thesis unfolding valid_def by blast
qed

lemma validD:
  assumes "valid s"
  shows "coherent s" "inv1 s" "inv3 s" "inv4 s"
  using assms unfolding valid_def by blast+

section \<open>Subtrees\<close>

lemma reach_unfold:
  "reach h a c \<longleftrightarrow> (\<exists>r \<in> set (reports (h a)). r = c \<or> reach h r c)"
  by (auto intro: reach.intros elim: reach.cases)

lemma reach_snoc: "reach h a m \<Longrightarrow> c \<in> set (reports (h m)) \<Longrightarrow> reach h a c"
  by (induction rule: reach.induct) (auto intro: reach.intros)

lemma reach_trans: "reach h a m \<Longrightarrow> reach h m c \<Longrightarrow> reach h a c"
  by (induction rule: reach.induct) (auto intro: reach.intros)

lemma reach_last: "reach h a c \<Longrightarrow> \<exists>p. c \<in> set (reports (h p)) \<and> (p = a \<or> reach h a p)"
  by (induction rule: reach.induct) (auto intro: reach.intros)

lemma reach_member:
  assumes c: "coherent s"
  shows "reach (heap s) a x \<Longrightarrow> a \<in> members s \<Longrightarrow> x \<in> members s"
  by (induction rule: reach.induct) (use coherentD(7) [OF c] in blast)+

lemma reach_level:
  assumes c: "coherent s" and i3: "inv3 s"
  shows "reach (heap s) a x \<Longrightarrow> a \<in> members s \<Longrightarrow> level (heap s a) < level (heap s x)"
proof (induction rule: reach.induct)
  case (direct r a)
  with member_child [OF c i3] show ?case by simp
next
  case (deeper r a x)
  with member_child [OF c i3 deeper.prems deeper.hyps(1)] show ?case by simp
qed

lemma reach_irrefl:
  assumes "coherent s" "inv3 s" "a \<in> members s"
  shows "\<not> reach (heap s) a a"
  using reach_level [OF assms(1,2) _ assms(3), of a] by auto

lemma root_reach:
  assumes v: "valid s" and r: "root s = Some r"
  shows "x \<in> members s \<Longrightarrow> x \<noteq> r \<Longrightarrow> level (heap s x) = l \<Longrightarrow> reach (heap s) r x"
proof (induction l arbitrary: x rule: less_induct)
  case (less l)
  note c = validD(1) [OF v] and i1 = validD(2) [OF v] and i3 = validD(3) [OF v]
    and i4 = validD(4) [OF v]
  from i1 r less.prems(1,2) obtain m where m: "manager (heap s x) = Some m"
    unfolding inv1_def by (cases "manager (heap s x)") blast+
  with i4 less.prems(1) have mm: "m \<in> members s" unfolding inv4_def by blast
  from coherentD(8) [OF c less.prems(1) m] have xr: "x \<in> set (reports (heap s m))" .
  from i3 less.prems(1) m have "level (heap s x) = level (heap s m) + 1"
    unfolding inv3_def by blast
  with less.prems(3) have lm: "level (heap s m) < l" by simp
  show ?case
  proof (cases "m = r")
    case True
    with xr show ?thesis by (auto intro: reach.direct)
  next
    case False
    from less.IH [OF lm mm False refl] have "reach (heap s) r m" .
    then show ?thesis using xr by (rule reach_snoc)
  qed
qed

section \<open>The cycle guard decides membership in the subtree\<close>

lemma scanReports_Some:
  "(\<And>r. r \<in> set rs \<Longrightarrow> deeper r = Some (P r)) \<Longrightarrow>
   scanReports h deeper c rs = Some (\<exists>r \<in> set rs. Some (eid (h r)) = idOf h c \<or> P r)"
  by (induction rs) (auto split: bool.splits)

lemma isDescendant_reach:
  assumes c: "coherent s" and i3: "inv3 s" and i4: "inv4 s" and x: "x \<in> members s"
  shows "a \<in> members s \<Longrightarrow> nxt s - level (heap s a) \<le> n \<Longrightarrow>
     isDescendant n (heap s) a (Member x) = Some (reach (heap s) a x)"
proof (induction n arbitrary: a)
  case 0
  with level_bound [OF c i3 i4, of a] show ?case by simp
next
  case (Suc n)
  have kids: "isDescendant n (heap s) r (Member x) = Some (reach (heap s) r x)"
    if "r \<in> set (reports (heap s a))" for r
  proof -
    from member_child [OF c i3 Suc.prems(1) that]
    have "r \<in> members s" "level (heap s r) = Suc (level (heap s a))" by simp_all
    with Suc.prems(2) show ?thesis by (intro Suc.IH) simp_all
  qed
  have ids: "(Some (eid (heap s r)) = idOf (heap s) (Member x)) = (r = x)"
    if "r \<in> set (reports (heap s a))" for r
    using eid_inj [OF c _ x, of r] coherentD(7) [OF c Suc.prems(1) that] by (auto simp: idOf_def)
  have "isDescendant (Suc n) (heap s) a (Member x)
      = Some (\<exists>r \<in> set (reports (heap s a)).
                Some (eid (heap s r)) = idOf (heap s) (Member x) \<or> reach (heap s) r x)"
    using scanReports_Some [of "reports (heap s a)" "\<lambda>r. isDescendant n (heap s) r (Member x)"
        "\<lambda>r. reach (heap s) r x" "heap s" "Member x"] kids
    by simp
  also have "(\<exists>r \<in> set (reports (heap s a)).
                Some (eid (heap s r)) = idOf (heap s) (Member x) \<or> reach (heap s) r x)
      = reach (heap s) a x"
    using ids by (subst (2) reach_unfold) blast
  finally show ?case .
qed


section \<open>What the level walk writes\<close>

lemma sub_unfold: "sub h a = insert a (\<Union>c \<in> set (reports (h a)). sub h c)"
proof -
  have "{c. reach h a c} = (\<Union>c \<in> set (reports (h a)). sub h c)"
    unfolding sub_def by (subst reach_unfold) auto
  then show ?thesis unfolding sub_def by simp
qed

lemma sub_child: "c \<in> set (reports (h a)) \<Longrightarrow> sub h c \<subseteq> sub h a"
  by (subst (2) sub_unfold) auto

lemma relevel_relevel: "relevel B f (relevel A f h) = relevel (A \<union> B) f h"
  by (auto simp: relevel_def fun_eq_iff)

lemma relevel_empty [simp]: "relevel {} f h = h"
  by (simp add: relevel_def)

lemma relevel_fields [simp]:
  "reports (relevel S f h x) = reports (h x)" "manager (relevel S f h x) = manager (h x)"
  "eid (relevel S f h x) = eid (h x)"
  by (simp_all add: relevel_def)

lemma forEach_relevel:
  assumes "\<And>c g. c \<in> set cs \<Longrightarrow> (\<forall>x \<in> S c. reports (g x) = R x) \<Longrightarrow> step c g = Some (relevel (S c) f g)"
  shows "(\<forall>c \<in> set cs. \<forall>x \<in> S c. reports (g x) = R x) \<Longrightarrow>
     forEach step cs g = Some (relevel (\<Union>c \<in> set cs. S c) f g)"
  using assms
proof (induction cs arbitrary: g)
  case Nil
  then show ?case by simp
next
  case (Cons c cs)
  from Cons.prems(1) have 1: "step c g = Some (relevel (S c) f g)"
    by (intro Cons.prems(2)) simp_all
  have "forEach step cs (relevel (S c) f g) = Some (relevel (\<Union>c \<in> set cs. S c) f (relevel (S c) f g))"
    using Cons.prems by (intro Cons.IH) simp_all
  with 1 show ?case by (simp add: relevel_relevel Un_commute)
qed

lemma updateLevels_relevel:
  assumes c: "coherent s" and i3: "inv3 s" and i4: "inv4 s"
  shows "a \<in> members s \<Longrightarrow> nxt s - level (heap s a) \<le> n \<Longrightarrow>
     (\<forall>x \<in> sub (heap s) a. reports (g x) = reports (heap s x)) \<Longrightarrow>
     (\<forall>x \<in> sub (heap s) a. \<forall>y \<in> set (reports (heap s x)). f y = f x + 1) \<Longrightarrow>
     updateLevels n a (f a) g = Some (relevel (sub (heap s) a) f g)"
proof (induction n arbitrary: a g)
  case 0
  with level_bound [OF c i3 i4, of a] show ?case by simp
next
  case (Suc n)
  let ?h1 = "g(a := (g a)\<lparr>level := f a\<rparr>)"
  have h1: "?h1 = relevel {a} f g" by (auto simp: relevel_def fun_eq_iff)
  have ra: "reports (g a) = reports (heap s a)"
    using Suc.prems(3) by (simp add: sub_def)
  have kid: "updateLevels n r (f a + 1) g' = Some (relevel (sub (heap s) r) f g')"
    if "r \<in> set (reports (heap s a))" "\<forall>x \<in> sub (heap s) r. reports (g' x) = reports (heap s x)"
    for r g'
  proof -
    from member_child [OF c i3 Suc.prems(1) that(1)]
    have r: "r \<in> members s" "level (heap s r) = Suc (level (heap s a))" by simp_all
    from Suc.prems(4) that(1) have fr: "f r = f a + 1" by (simp add: sub_def)
    from r Suc.prems(2) have le: "nxt s - level (heap s r) \<le> n" by simp
    from Suc.prems(4) sub_child [of r "heap s" a, OF that(1)]
    have "\<forall>x \<in> sub (heap s) r. \<forall>y \<in> set (reports (heap s x)). f y = f x + 1" by blast
    from Suc.IH [OF r(1) le that(2) this] fr show ?thesis by simp
  qed
  have pre: "\<forall>r \<in> set (reports (heap s a)). \<forall>x \<in> sub (heap s) r. reports (?h1 x) = reports (heap s x)"
    using Suc.prems(3) sub_child [of _ "heap s" a] unfolding h1 by (simp add: subset_iff)
  have "updateLevels (Suc n) a (f a) g
      = forEach (\<lambda>r. updateLevels n r (f a + 1)) (reports (heap s a)) ?h1"
    by (simp add: ra Let_def)
  also have "forEach (\<lambda>r. updateLevels n r (f a + 1)) (reports (heap s a)) ?h1
      = Some (relevel (\<Union>r \<in> set (reports (heap s a)). sub (heap s) r) f ?h1)"
    using forEach_relevel [of "reports (heap s a)" "sub (heap s)" "\<lambda>x. reports (heap s x)"
        "\<lambda>r. updateLevels n r (f a + 1)" f ?h1] kid pre
    by blast
  also have "relevel (\<Union>r \<in> set (reports (heap s a)). sub (heap s) r) f ?h1 = relevel (sub (heap s) a) f g"
    unfolding h1 relevel_relevel using sub_unfold [of "heap s" a] by simp
  finally show ?case .
qed

section \<open>A successful move\<close>

lemma sub_member:
  assumes "coherent s" "a \<in> members s" "x \<in> sub (heap s) a"
  shows "x \<in> members s"
  using assms reach_member [OF assms(1), of a x] unfolding sub_def by blast

lemma sub_level:
  assumes "coherent s" "inv3 s" "a \<in> members s" "x \<in> sub (heap s) a"
  shows "level (heap s a) \<le> level (heap s x)"
  using assms(4) reach_level [OF assms(1,2) _ assms(3), of x] unfolding sub_def by auto

lemma filter_eid:
  assumes c: "coherent s" and m: "m \<in> members s" and e: "e \<in> members s"
  shows "filter (\<lambda>r. eid (heap s r) \<noteq> eid (heap s e)) (reports (heap s m))
     = removeAll e (reports (heap s m))"
proof -
  have "(eid (heap s r) \<noteq> eid (heap s e)) = (r \<noteq> e)" if "r \<in> set (reports (heap s m))" for r
    using eid_inj [OF c _ e, of r] coherentD(7) [OF c m that] by blast
  then have "filter (\<lambda>r. eid (heap s r) \<noteq> eid (heap s e)) (reports (heap s m))
      = filter (\<lambda>r. r \<noteq> e) (reports (heap s m))"
    by (intro filter_cong) simp_all
  then show ?thesis by (simp add: removeAll_filter_not_eq eq_commute)
qed

lemma moveSubtree_moved:
  assumes v: "valid s"
    and ke: "map_of (employees s) k = Some e" and kb: "map_of (employees s) m = Some b"
    and nr: "root s \<noteq> Some e" and ne: "e \<noteq> b" and nd: "\<not> reach (heap s) e b"
  shows "\<exists>d h'. prepareForExport s = Some d
    \<and> moveSubtree k m s = (Returned True, s\<lparr>heap := h', history := history s @ [d], future := []\<rparr>)
    \<and> (\<forall>x \<in> members s. h' x = moved e b (heap s) x)"
proof -
  note c = validD(1) [OF v] and i1 = validD(2) [OF v] and i3 = validD(3) [OF v]
    and i4 = validD(4) [OF v]
  from ke kb c have e: "e \<in> members s" "eid (heap s e) = k" and b: "b \<in> members s" "eid (heap s b) = m"
    by (simp_all add: member_lookup)
  from e(1) have "employees s \<noteq> []" unfolding members_def by auto
  with coherentD(4) [OF c] obtain r where r: "root s = Some r" by (cases "root s") auto
  from pushState_valid [OF v r] obtain d where d: "prepareForExport s = Some d"
    and ps: "pushState s = Some (s\<lparr>history := history s @ [d], future := []\<rparr>)" by blast
  from i1 r nr e(1) obtain m0 where m0: "manager (heap s e) = Some m0"
    unfolding inv1_def by (cases "manager (heap s e)") auto
  with i4 e(1) have m0m: "m0 \<in> members s" unfolding inv4_def by blast
  from i3 e(1) m0 have le: "level (heap s e) = level (heap s m0) + 1" unfolding inv3_def by blast
  then have em0: "e \<noteq> m0" by auto
  have ids: "eid (heap s e) \<noteq> eid (heap s b)" using eid_inj [OF c e(1) b(1)] ne by blast
  have isd: "isDescendant (nxt s) (heap s) e (Member b) = Some False"
    using isDescendant_reach [OF c i3 i4 b(1) e(1), of "nxt s"] nd by simp
  let ?h1 = "(heap s)(m0 := (heap s m0)\<lparr>reports := removeAll e (reports (heap s m0))\<rparr>)"
  let ?h2 = "addReport b e ?h1"
  let ?f = "\<lambda>x. level (heap s b) + 1 + (level (heap s x) - level (heap s e))"
  have m0sub: "m0 \<notin> sub (heap s) e"
    using sub_level [OF c i3 e(1), of m0] le by auto
  have bsub: "b \<notin> sub (heap s) e" using ne nd unfolding sub_def by auto
  have rep2: "\<forall>x \<in> sub (heap s) e. reports (?h2 x) = reports (heap s x)"
    using m0sub bsub by (auto simp: addReport_def Let_def)
  have fstep: "\<forall>x \<in> sub (heap s) e. \<forall>y \<in> set (reports (heap s x)). ?f y = ?f x + 1"
  proof (intro ballI)
    fix x y assume x: "x \<in> sub (heap s) e" and y: "y \<in> set (reports (heap s x))"
    from sub_member [OF c e(1) x] have xm: "x \<in> members s" .
    from member_child [OF c i3 xm y] have "level (heap s y) = Suc (level (heap s x))" by simp
    with sub_level [OF c i3 e(1) x] show "?f y = ?f x + 1" by simp
  qed
  have lb: "level (?h2 b) = level (heap s b)" using ne by (simp add: addReport_def Let_def)
  have "updateLevels (nxt s) e (?f e) ?h2 = Some (relevel (sub (heap s) e) ?f ?h2)"
    using updateLevels_relevel [OF c i3 i4 e(1) _ rep2 fstep, of "nxt s"] by simp
  then have ul: "updateLevels (nxt s) e (level (?h2 b) + 1) ?h2 = Some (relevel (sub (heap s) e) ?f ?h2)"
    unfolding lb by simp
  have pe: "property s k = Member e" and pb: "property s m = Member b"
    using ke kb by (simp_all add: property_Member)
  have mv: "moveSubtree k m s = (Returned True,
      s\<lparr>heap := relevel (sub (heap s) e) ?f ?h2, history := history s @ [d], future := []\<rparr>)"
    using nr ids isd ul r
    by (simp add: moveSubtree_def pe pb ps m0 filter_eid [OF c m0m e(1)] idOf_def Let_def)
  have pt: "relevel (sub (heap s) e) ?f ?h2 x = moved e b (heap s) x" if x: "x \<in> members s" for x
  proof -
    have "removeAll e (reports (heap s x)) = reports (heap s x)" if "x \<noteq> m0"
    proof -
      have "e \<notin> set (reports (heap s x))"
        using coherentD(7) [OF c x, of e] m0 that by auto
      then show ?thesis by simp
    qed
    moreover have "e \<in> sub (heap s) e" by (simp add: sub_def)
    ultimately show ?thesis
      using ne em0
      by (cases "x = e"; cases "x = b"; cases "x = m0";
          simp add: relevel_def moved_def addReport_def Let_def)
  qed
  from d mv pt show ?thesis by blast
qed


lemma members_heap [simp]: "members (s\<lparr>heap := h\<rparr>) = members s"
  by (simp add: members_def)

lemma inv1D:
  "inv1 s \<Longrightarrow> root s = Some r \<Longrightarrow> a \<in> members s \<Longrightarrow> (manager (heap s a) = None) = (a = r)"
  by (simp add: inv1_def)



lemma reach_parent:
  assumes c: "coherent s" and a: "a \<in> members s" and r: "reach (heap s) a x"
    and m: "manager (heap s x) = Some p"
  shows "p \<in> sub (heap s) a"
proof -
  from reach_last [OF r] obtain q where q: "x \<in> set (reports (heap s q))" "q = a \<or> reach (heap s) a q"
    by blast
  then have qm: "q \<in> members s" using a reach_member [OF c _ a] by blast
  from coherentD(7) [OF c qm q(1)] m have "p = q" by simp
  with q(2) show ?thesis by (auto simp: sub_def)
qed

lemma moved_valid:
  assumes v: "valid s" and e: "e \<in> members s" and b: "b \<in> members s"
    and nr: "root s \<noteq> Some e" and ne: "e \<noteq> b" and nd: "\<not> reach (heap s) e b"
    and h': "\<forall>x \<in> members s. h' x = moved e b (heap s) x"
  shows "valid (s\<lparr>heap := h'\<rparr>)"
proof -
  note c = validD(1) [OF v] and i1 = validD(2) [OF v] and i3 = validD(3) [OF v]
    and i4 = validD(4) [OF v]
  let ?s = "s\<lparr>heap := h'\<rparr>"
  let ?h = "heap s"
  from e have "employees s \<noteq> []" unfolding members_def by auto
  with coherentD(4) [OF c] obtain r where r: "root s = Some r" by (cases "root s") auto
  from i1 r nr e obtain m0 where m0: "manager (?h e) = Some m0"
    unfolding inv1_def by (cases "manager (?h e)") auto
  have man: "manager (h' x) = (if x = e then Some b else manager (?h x))" if "x \<in> members s" for x
    using h' that by (simp add: moved_def)
  have rep: "reports (h' x) = removeAll e (reports (?h x)) @ (if x = b then [e] else [])"
    if "x \<in> members s" for x
    using h' that by (simp add: moved_def)
  have lev: "level (h' x) = (if x \<in> sub ?h e
                           then level (?h b) + 1 + (level (?h x) - level (?h e))
                           else level (?h x))" if "x \<in> members s" for x
    using h' that by (simp add: moved_def)
  have ide: "eid (h' x) = eid (?h x)" if "x \<in> members s" for x
    using h' that by (simp add: moved_def)
  have bsub: "b \<notin> sub ?h e" using ne nd by (auto simp: sub_def)
  have esub: "e \<in> sub ?h e" by (simp add: sub_def)
  have co: "coherent ?s"
    unfolding coherent_def
  proof (intro conjI ballI allI impI)
    show "\<not> foreign ?s" using coherent_plain [OF c] by simp
    show "distinct (map fst (employees ?s))" "distinct (map snd (employees ?s))"
      using coherentD(1,2) [OF c] by simp_all
    show "case ka of (k, a) \<Rightarrow> a < nxt ?s \<and> eid (heap ?s a) = k" if "ka \<in> set (employees ?s)" for ka
    proof -
      obtain k a where ka: "ka = (k, a)" by (cases ka)
      with that have in_s: "(k, a) \<in> set (employees s)" by simp
      then have "a \<in> members s" unfolding members_def by force
      with coherentD(3) [OF c in_s] ide ka show ?thesis by simp
    qed
    show "employees ?s = []" if "root ?s = None" using that r by simp
    show "r' \<in> members ?s" if "root ?s = Some r'" for r'
      using that coherentD(5) [OF c, of r'] by simp
    show "distinct (reports (heap ?s a))" if "a \<in> members ?s" for a
      using that coherentD(6) [OF c, of a] rep [of a] by (simp add: distinct_removeAll)
    show "x \<in> members ?s" if "a \<in> members ?s" "x \<in> set (reports (heap ?s a))" for a x
      using that coherentD(7) [OF c, of a x] rep [of a] e by (auto split: if_splits)
    show "manager (heap ?s x) = Some a" if "a \<in> members ?s" "x \<in> set (reports (heap ?s a))" for a x
    proof -
      from that have a: "a \<in> members s" by simp
      from that rep [OF a] have x: "(x \<in> set (reports (?h a)) \<and> x \<noteq> e) \<or> (a = b \<and> x = e)"
        by (auto split: if_splits)
      then show ?thesis
      proof
        assume "x \<in> set (reports (?h a)) \<and> x \<noteq> e"
        with coherentD(7) [OF c a, of x] man [of x] show ?thesis by simp
      next
        assume "a = b \<and> x = e"
        with man [OF e] show ?thesis by simp
      qed
    qed
    show "a \<in> set (reports (heap ?s m))" if "a \<in> members ?s" "manager (heap ?s a) = Some m" for a m
    proof (cases "a = e")
      case True
      with that man [OF e] have "m = b" by simp
      with True rep [OF b] show ?thesis by simp
    next
      case False
      from that have a: "a \<in> members s" by simp
      with that False man [OF a] have ma: "manager (?h a) = Some m" by simp
      with i4 a have mm: "m \<in> members s" unfolding inv4_def by blast
      from coherentD(8) [OF c a ma] False rep [OF mm] show ?thesis by simp
    qed
  qed
  have one: "inv1 ?s"
    unfolding inv1_def
  proof (intro conjI ballI allI impI)
    show "employees ?s = []" if "root ?s = None" using that r by simp
    show "(manager (heap ?s a) = None) = (a = r')" if "root ?s = Some r'" "a \<in> members ?s" for r' a
    proof -
      from that have a: "a \<in> members s" and r': "root s = Some r'" by simp_all
      from inv1D [OF i1 r' a] have "(manager (?h a) = None) = (a = r')" .
      with man [OF a] nr r' show ?thesis by auto
    qed
  qed
  have four: "inv4 ?s"
    unfolding inv4_def
  proof (intro ballI allI impI)
    fix a m assume "a \<in> members ?s" "manager (heap ?s a) = Some m"
    then have a: "a \<in> members s" and "(if a = e then Some b else manager (?h a)) = Some m"
      using man [of a] by simp_all
    with i4 b show "m \<in> members ?s" unfolding inv4_def by (auto split: if_splits)
  qed
  have three: "inv3 ?s"
    unfolding inv3_def
  proof (intro conjI ballI allI impI)
    fix a assume "a \<in> members ?s"
    then have a: "a \<in> members s" by simp
    {
      assume "manager (heap ?s a) = None"
      with man [OF a] have ane: "a \<noteq> e" and none: "manager (?h a) = None" by (auto split: if_splits)
      with inv1D [OF i1 r a] have ar: "a = r" by simp
      have "a \<notin> sub ?h e"
      proof
        assume "a \<in> sub ?h e"
        with ane have "reach ?h e a" by (simp add: sub_def)
        from reach_level [OF c i3 this e] have "0 < level (?h a)" by simp
        moreover from i3 a none have "level (?h a) = 0" unfolding inv3_def by blast
        ultimately show False by simp
      qed
      moreover from i3 a none have "level (?h a) = 0" unfolding inv3_def by blast
      ultimately show "level (heap ?s a) = 0" using lev [OF a] by simp
    }
    fix m assume "manager (heap ?s a) = Some m"
    with man [OF a] have mm: "(if a = e then Some b else manager (?h a)) = Some m" by simp
    show "level (heap ?s a) = level (heap ?s m) + 1"
    proof (cases "a = e")
      case True
      with mm have "m = b" by simp
      with True lev [OF e] lev [OF b] bsub esub show ?thesis by simp
    next
      case False
      with mm have ma: "manager (?h a) = Some m" by simp
      with i4 a have m: "m \<in> members s" unfolding inv4_def by blast
      from i3 a ma have la: "level (?h a) = level (?h m) + 1" unfolding inv3_def by blast
      show ?thesis
      proof (cases "a \<in> sub ?h e")
        case True
        with False have "reach ?h e a" by (simp add: sub_def)
        from reach_parent [OF c e this ma] have ms: "m \<in> sub ?h e" .
        from sub_level [OF c i3 e ms] la True ms lev [OF a] lev [OF m] show ?thesis by simp
      next
        case nsub: False
        have "m \<notin> sub ?h e"
        proof
          assume "m \<in> sub ?h e"
          moreover from coherentD(8) [OF c a ma] have "a \<in> set (reports (?h m))" .
          ultimately have "reach ?h e a"
            by (auto simp: sub_def intro: reach.direct reach_snoc)
          with nsub show False by (simp add: sub_def)
        qed
        with nsub la lev [OF a] lev [OF m] show ?thesis by simp
      qed
    qed
  qed
  from co one three four show ?thesis by (simp add: valid_iff)
qed


lemma below_moved:
  assumes c: "coherent s" and i3: "inv3 s" and e: "e \<in> members s" and bs: "b \<notin> sub (heap s) e"
    and h': "\<forall>x \<in> members s. h' x = moved e b (heap s) x"
  shows "below h' e d x \<Longrightarrow> x \<in> sub (heap s) e \<and> level (heap s x) = level (heap s e) + d"
proof (induction rule: below.induct)
  case self
  show ?case by (simp add: sub_def)
next
  case (step d m r)
  from step.IH have ms: "m \<in> sub (heap s) e" and lm: "level (heap s m) = level (heap s e) + d"
    by simp_all
  from sub_member [OF c e ms] have mm: "m \<in> members s" .
  from ms bs have "m \<noteq> b" by auto
  with h' mm step.hyps(2) have r: "r \<in> set (reports (heap s m))"
    by (simp add: moved_def)
  from member_child [OF c i3 mm r] lm have "level (heap s r) = level (heap s e) + Suc d" by simp
  moreover from ms r have "r \<in> sub (heap s) e"
    by (auto simp: sub_def intro: reach.direct reach_snoc)
  ultimately show ?case by simp
qed


section \<open>Mutations that keep the tree valid\<close>

lemma update_fresh: "k \<notin> fst ` set al \<Longrightarrow> AList.update k v al = al @ [(k, v)]"
  by (induction al) auto

















lemma ids_JNode [simp]: "ids (JNode i nm ttl lb dv dp em lv ds) = i # concat (map ids ds)"
  by (simp add: ids_def [abs_def] map_concat comp_def)

lemma length_subdocs: "length (subdocs d) = sz d"
  by (induction d) (simp add: length_concat comp_def cong: map_cong)

lemma length_ids [simp]: "length (ids d) = sz d"
  by (simp add: ids_def length_subdocs)

lemma length_ids_concat [simp]: "length (concat (map ids ds)) = sum_list (map sz ds)"
  by (simp add: length_concat comp_def)

lemma starts_append: "starts n (ds @ es) = starts n ds @ starts (n + sum_list (map sz ds)) es"
  by (induction ds arbitrary: n) (simp_all add: add.assoc)

lemma updates_append:
  "length ks = length vs \<Longrightarrow>
   AList.updates (ks @ ks') (vs @ vs') al = AList.updates ks' vs' (AList.updates ks vs al)"
  by (induction ks vs arbitrary: al rule: list_induct2) simp_all

lemma store_plain:
  "key \<noteq> ''__proto__'' \<Longrightarrow> store key e s = s\<lparr>employees := AList.update key e (employees s)\<rparr>"
  by (simp add: store_def)

lemma grown_Nil: "grown [] mgr s s"
  by (simp add: grown_def)

lemma grown_append:
  assumes "grown ds mgr s s1" and "grown es mgr s1 s2"
  shows "grown (ds @ es) mgr s s2"
proof -
  let ?a = "sum_list (map sz ds)" and ?b = "sum_list (map sz es)"
  have n1: "nxt s1 = nxt s + ?a" and n2: "nxt s2 = nxt s1 + ?b"
    using assms by (simp_all add: grown_def)
  have h1: "\<And>x. x < nxt s \<Longrightarrow> heap s1 x =
      (if mgr = Some x then (heap s x)\<lparr>reports := reports (heap s x) @ starts (nxt s) ds\<rparr>
       else heap s x)"
    using assms(1) by (simp add: grown_def)
  have h2: "\<And>x. x < nxt s1 \<Longrightarrow> heap s2 x =
      (if mgr = Some x then (heap s1 x)\<lparr>reports := reports (heap s1 x) @ starts (nxt s1) es\<rparr>
       else heap s1 x)"
    using assms(2) by (simp add: grown_def)
  have h: "heap s2 x =
      (if mgr = Some x then (heap s x)\<lparr>reports := reports (heap s x) @ starts (nxt s) (ds @ es)\<rparr>
       else heap s x)" if "x < nxt s" for x
    using h1 [OF that] h2 [of x] that n1 by (simp add: starts_append)
  have upt: "[nxt s ..< nxt s + (?a + ?b)] = [nxt s ..< nxt s + ?a] @ [nxt s + ?a ..< nxt s + ?a + ?b]"
    using upt_add_eq_append [of "nxt s" "nxt s + ?a" ?b] by (simp add: add.assoc)
  have e: "employees s2 = AList.updates (concat (map ids (ds @ es)))
      [nxt s ..< nxt s + sum_list (map sz (ds @ es))] (employees s)"
    using assms n1 by (simp add: grown_def upt updates_append)
  show ?thesis
    unfolding grown_def using n1 n2 h e assms by (simp add: grown_def)
qed

lemma recreateAll_Nil [simp]: "recreateAll [] a s = s"
  by (simp add: recreateAll_def)

lemma recreateAll_Cons [simp]:
  "recreateAll (d # ds) a s = recreateAll ds a (snd (recreateFromJSON d (Some a) s))"
  by (simp add: recreateAll_def)

lemma recreateAll_grown:
  assumes "\<And>d s. d \<in> set ds \<Longrightarrow> a < nxt s \<Longrightarrow>
      grown [d] (Some a) s (snd (recreateFromJSON d (Some a) s))"
    and "a < nxt s"
  shows "grown ds (Some a) s (recreateAll ds a s)"
  using assms
proof (induction ds arbitrary: s)
  case Nil
  show ?case by (simp add: grown_Nil)
next
  case (Cons d ds)
  let ?s1 = "snd (recreateFromJSON d (Some a) s)"
  have 1: "grown [d] (Some a) s ?s1" using Cons.prems by simp
  hence "a < nxt ?s1" using Cons.prems(2) by (simp add: grown_def)
  hence "grown ds (Some a) ?s1 (recreateAll ds a ?s1)"
    using Cons.IH Cons.prems(1) by simp
  from grown_append [OF 1 this] show ?case by simp
qed

lemma recreateFromJSON_node:
  "recreateFromJSON (JNode i nm ttl lb dv dp em lv ds) mgr s =
     (nxt s, recreateAll ds (nxt s)
        (let emp = (Employee i nm ttl lb dv dp em mgr (heap s))\<lparr>eid := i, level := lv\<rparr>;
             s2 = store i (nxt s) (s\<lparr>heap := (heap s)(nxt s := emp), nxt := Suc (nxt s)\<rparr>)
         in case mgr of
              None \<Rightarrow> s2\<lparr>root := Some (nxt s)\<rparr>
            | Some m \<Rightarrow>
                s2\<lparr>heap := (heap s2)(m := (heap s2 m)\<lparr>reports := reports (heap s2 m) @ [nxt s]\<rparr>)\<rparr>))"
  by (simp add: recreateAll_def Let_def)

lemma recreateFromJSON_fst: "fst (recreateFromJSON d mgr s) = nxt s"
  by (cases d) (simp add: Let_def)

lemma recreateFromJSON_grown:
  "(\<And>m. mgr = Some m \<Longrightarrow> m < nxt s) \<Longrightarrow> ''__proto__'' \<notin> set (ids d) \<Longrightarrow>
   grown [d] mgr s (snd (recreateFromJSON d mgr s))"
proof (induction d arbitrary: mgr s)
  case (JNode i nm ttl lb dv dp em lv ds)
  define a where "a = nxt s"
  define emp where "emp = (Employee i nm ttl lb dv dp em mgr (heap s))\<lparr>eid := i, level := lv\<rparr>"
  define s3 where "s3 = (let s2 = store i a (s\<lparr>heap := (heap s)(a := emp), nxt := Suc a\<rparr>)
         in case mgr of
              None \<Rightarrow> s2\<lparr>root := Some a\<rparr>
            | Some m \<Rightarrow>
                s2\<lparr>heap := (heap s2)(m := (heap s2 m)\<lparr>reports := reports (heap s2 m) @ [a]\<rparr>)\<rparr>)"
  have i: "i \<noteq> ''__proto__''" and free: "\<And>d. d \<in> set ds \<Longrightarrow> ''__proto__'' \<notin> set (ids d)"
    using JNode.prems(2) by auto
  have eq: "snd (recreateFromJSON (JNode i nm ttl lb dv dp em lv ds) mgr s) = recreateAll ds a s3"
    unfolding recreateFromJSON_node s3_def a_def emp_def by (simp add: Let_def)
  have n3: "nxt s3 = Suc a" and e3: "employees s3 = AList.update i a (employees s)"
    and o3: "history s3 = history s" "future s3 = future s" "foreign s3 = foreign s"
    unfolding s3_def by (simp_all add: store_plain [OF i] Let_def split: option.splits)
  have h3: "heap s3 x = (if mgr = Some x then (heap s x)\<lparr>reports := reports (heap s x) @ [a]\<rparr>
       else heap s x)" if "x < a" for x
    using that unfolding s3_def by (simp add: store_plain [OF i] Let_def split: option.splits)
  have "grown ds (Some a) s3 (recreateAll ds a s3)"
  proof (rule recreateAll_grown)
    show "a < nxt s3" by (simp add: n3)
    show "grown [d] (Some a) s (snd (recreateFromJSON d (Some a) s))" if "d \<in> set ds" "a < nxt s"
      for d s using JNode.IH [OF that(1), of "Some a" s] that free by simp
  qed
  hence g: "nxt (recreateAll ds a s3) = Suc a + sum_list (map sz ds)"
    "\<And>x. x < Suc a \<Longrightarrow> heap (recreateAll ds a s3) x =
       (if x = a then (heap s3 x)\<lparr>reports := reports (heap s3 x) @ starts (Suc a) ds\<rparr> else heap s3 x)"
    "employees (recreateAll ds a s3) =
       AList.updates (concat (map ids ds)) [Suc a ..< Suc a + sum_list (map sz ds)] (employees s3)"
    "history (recreateAll ds a s3) = history s" "future (recreateAll ds a s3) = future s"
    "foreign (recreateAll ds a s3) = foreign s"
    by (auto simp: grown_def n3 o3)
  have upt: "[a ..< Suc (a + sum_list (map sz ds))] = a # [Suc a ..< Suc (a + sum_list (map sz ds))]"
    by (rule upt_conv_Cons) simp
  show ?case
    unfolding eq grown_def using g(1,3-) h3 g(2)
    by (simp add: a_def [symmetric] e3 upt del: upt_Suc)
qed

lemma laid_frame:
  "(\<And>x. a \<le> x \<Longrightarrow> x < a + sz d \<Longrightarrow> h' x = h x) \<Longrightarrow> laid h' m a d = laid h m a d"
  and laids_frame:
  "(\<And>x. n \<le> x \<Longrightarrow> x < n + sum_list (map sz ds) \<Longrightarrow> h' x = h x) \<Longrightarrow>
   laids h' p n ds = laids h p n ds"
proof (induction h m a d and h p n ds rule: laid_laids.induct)
  case (1 h m a i nm ttl lb dv dp em lv ds)
  have "h' a = h a" using 1(2) [of a] by simp
  moreover have "laids h' a (Suc a) ds = laids h a (Suc a) ds"
    using 1(2) by (intro 1(1)) simp
  ultimately show ?case by simp
next
  case (2 h p n)
  show ?case by simp
next
  case (3 h p n d ds)
  have "laid h' (Some p) n d = laid h (Some p) n d" using 3(3) by (intro 3(1)) simp
  moreover have "laids h' p (n + sz d) ds = laids h p (n + sz d) ds"
    using 3(3) by (intro 3(2)) simp
  ultimately show ?case by simp
qed

lemma recreateAll_laids:
  assumes "\<And>d s. d \<in> set ds \<Longrightarrow> a < nxt s \<Longrightarrow>
      laid (heap (snd (recreateFromJSON d (Some a) s))) (Some a) (nxt s) d"
    and "\<And>d. d \<in> set ds \<Longrightarrow> ''__proto__'' \<notin> set (ids d)"
    and "a < nxt s"
  shows "laids (heap (recreateAll ds a s)) a (nxt s) ds"
  using assms
proof (induction ds arbitrary: s)
  case Nil
  show ?case by simp
next
  case (Cons d ds)
  let ?s1 = "snd (recreateFromJSON d (Some a) s)"
  let ?s2 = "recreateAll ds a ?s1"
  have g1: "grown [d] (Some a) s ?s1"
    using Cons.prems by (intro recreateFromJSON_grown) simp_all
  hence n1: "nxt ?s1 = nxt s + sz d" by (simp add: grown_def)
  hence a1: "a < nxt ?s1" using Cons.prems(3) by simp
  have g2: "grown ds (Some a) ?s1 ?s2"
    using Cons.prems(2) a1 by (intro recreateAll_grown recreateFromJSON_grown) simp_all
  have same: "heap ?s2 x = heap ?s1 x" if "nxt s \<le> x" "x < nxt s + sz d" for x
    using g2 that n1 Cons.prems(3) by (simp add: grown_def)
  have "laid (heap ?s1) (Some a) (nxt s) d" using Cons.prems by simp
  hence "laid (heap ?s2) (Some a) (nxt s) d"
    using laid_frame [of "nxt s" d "heap ?s2" "heap ?s1" "Some a"] same by simp
  moreover have "laids (heap ?s2) a (nxt ?s1) ds"
    using Cons.prems a1 by (intro Cons.IH) simp_all
  ultimately show ?case by (simp add: n1)
qed

lemma recreateFromJSON_laid:
  "(\<And>m. mgr = Some m \<Longrightarrow> m < nxt s) \<Longrightarrow> ''__proto__'' \<notin> set (ids d) \<Longrightarrow>
   laid (heap (snd (recreateFromJSON d mgr s))) mgr (nxt s) d"
proof (induction d arbitrary: mgr s)
  case (JNode i nm ttl lb dv dp em lv ds)
  define a where "a = nxt s"
  define emp where "emp = (Employee i nm ttl lb dv dp em mgr (heap s))\<lparr>eid := i, level := lv\<rparr>"
  define s3 where "s3 = (let s2 = store i a (s\<lparr>heap := (heap s)(a := emp), nxt := Suc a\<rparr>)
         in case mgr of
              None \<Rightarrow> s2\<lparr>root := Some a\<rparr>
            | Some m \<Rightarrow>
                s2\<lparr>heap := (heap s2)(m := (heap s2 m)\<lparr>reports := reports (heap s2 m) @ [a]\<rparr>)\<rparr>)"
  have i: "i \<noteq> ''__proto__''" and free: "\<And>d. d \<in> set ds \<Longrightarrow> ''__proto__'' \<notin> set (ids d)"
    using JNode.prems(2) by auto
  have eq: "snd (recreateFromJSON (JNode i nm ttl lb dv dp em lv ds) mgr s) = recreateAll ds a s3"
    unfolding recreateFromJSON_node s3_def a_def emp_def by (simp add: Let_def)
  have n3: "nxt s3 = Suc a"
    unfolding s3_def by (simp add: store_plain [OF i] Let_def split: option.splits)
  have h3: "heap s3 a = emp"
    using JNode.prems(1) unfolding s3_def a_def
    by (auto simp: store_plain [OF i] Let_def split: option.splits)
  have "grown ds (Some a) s3 (recreateAll ds a s3)"
    using free by (intro recreateAll_grown recreateFromJSON_grown) (simp_all add: n3)
  hence top: "heap (recreateAll ds a s3) a = emp\<lparr>reports := reports emp @ starts (Suc a) ds\<rparr>"
    by (simp add: grown_def n3 h3)
  have "laids (heap (recreateAll ds a s3)) a (nxt s3) ds"
  proof (rule recreateAll_laids)
    show "a < nxt s3" by (simp add: n3)
    show "''__proto__'' \<notin> set (ids d)" if "d \<in> set ds" for d using free that .
    show "laid (heap (snd (recreateFromJSON d (Some a) s))) (Some a) (nxt s) d"
      if "d \<in> set ds" "a < nxt s" for d s
      using JNode.IH [OF that(1), of "Some a" s] that free by simp
  qed
  thus ?case
    unfolding eq using top by (simp add: n3 a_def [symmetric] emp_def Employee_def)
qed

lemma recreateAll_root:
  assumes "\<And>d s. d \<in> set ds \<Longrightarrow> root (snd (recreateFromJSON d (Some a) s)) = root s"
  shows "root (recreateAll ds a s) = root s"
  using assms by (induction ds arbitrary: s) simp_all

lemma recreateFromJSON_root:
  "root (snd (recreateFromJSON d mgr s)) = (case mgr of None \<Rightarrow> Some (nxt s) | Some m \<Rightarrow> root s)"
proof (induction d arbitrary: mgr s)
  case (JNode i nm ttl lb dv dp em lv ds)
  show ?case
    unfolding recreateFromJSON_node
    by (subst snd_conv, subst recreateAll_root)
      (simp_all add: JNode.IH store_def Let_def split: option.splits)
qed

text \<open>What \<open>loadSnapshot\<close> leaves.\<close>

lemma loadSnapshot_facts:
  assumes "''__proto__'' \<notin> set (ids doc)"
  shows "nxt (loadSnapshot doc s) = nxt s + sz doc"
    and "root (loadSnapshot doc s) = Some (nxt s)"
    and "employees (loadSnapshot doc s) = AList.updates (ids doc) [nxt s ..< nxt s + sz doc] []"
    and "laid (heap (loadSnapshot doc s)) None (nxt s) doc"
    and "history (loadSnapshot doc s) = history s"
    and "future (loadSnapshot doc s) = future s"
    and "foreign (loadSnapshot doc s) = foreign s"
    and "\<And>x. x < nxt s \<Longrightarrow> heap (loadSnapshot doc s) x = heap s x"
proof -
  let ?s0 = "s\<lparr>employees := []\<rparr>"
  have g: "grown [doc] None ?s0 (loadSnapshot doc s)"
    unfolding loadSnapshot_def using assms by (intro recreateFromJSON_grown) simp_all
  show "nxt (loadSnapshot doc s) = nxt s + sz doc"
    and "employees (loadSnapshot doc s) = AList.updates (ids doc) [nxt s ..< nxt s + sz doc] []"
    and "history (loadSnapshot doc s) = history s"
    and "future (loadSnapshot doc s) = future s"
    and "foreign (loadSnapshot doc s) = foreign s"
    and "\<And>x. x < nxt s \<Longrightarrow> heap (loadSnapshot doc s) x = heap s x"
    using g by (simp_all add: grown_def)
  show "root (loadSnapshot doc s) = Some (nxt s)"
    by (simp add: loadSnapshot_def recreateFromJSON_root)
  show "laid (heap (loadSnapshot doc s)) None (nxt s) doc"
    unfolding loadSnapshot_def
    using recreateFromJSON_laid [of None ?s0 doc] assms by simp
qed





lemma laid_eid: "laid h m a d \<Longrightarrow> eid (h a) = jid d"
  by (cases d) simp







lemma entries_ids: "map e_id (entries m d) = ids d"
  by (induction d arbitrary: m) (simp add: map_concat comp_def cong: map_cong)

lemma laids_eids: "laids h p n ds \<Longrightarrow> map (\<lambda>r. eid (h r)) (starts n ds) = map jid ds"
  by (induction ds arbitrary: n) (auto simp: laid_eid)

lemma laid_entries:
  "laid h m a d \<Longrightarrow>
   map (entryOf h) [a ..< a + sz d] = entries (map_option (\<lambda>x. eid (h x)) m) d"
  and laids_entries:
  "laids h p n ds \<Longrightarrow>
   map (entryOf h) [n ..< n + sum_list (map sz ds)] = concat (map (entries (Some (eid (h p)))) ds)"
proof (induction h m a d and h p n ds rule: laid_laids.induct)
  case (1 h m a i nm ttl lb dv dp em lv ds)
  have upt: "[a ..< Suc (a + sum_list (map sz ds))] = a # [Suc a ..< Suc a + sum_list (map sz ds)]"
    by (subst upt_conv_Cons) simp_all
  have ls: "laids h a (Suc a) ds" and i: "eid (h a) = i" using 1(2) by simp_all
  have top: "entryOf h a =
     \<lparr>e_id = i, e_name = nm, e_title = ttl, e_lob = lb, e_division = dv, e_dept = dp,
      e_email = em, e_level = lv, e_manager = map_option (\<lambda>x. eid (h x)) m,
      e_reports = map jid ds\<rparr>"
    using 1(2) laids_eids [OF ls] by (simp add: entryOf_def)
  show ?case
    using 1(1) [OF ls] by (simp add: upt top i del: upt_Suc)
next
  case (2 h p n)
  show ?case by simp
next
  case (3 h p n d ds)
  have upt: "[n ..< n + (sz d + sum_list (map sz ds))] =
      [n ..< n + sz d] @ [n + sz d ..< n + sz d + sum_list (map sz ds)]"
    using upt_add_eq_append [of n "n + sz d" "sum_list (map sz ds)"] by (simp add: add.assoc)
  show ?case
    using 3 by (simp add: upt)
qed

lemma updates_fresh:
  "length ks = length vs \<Longrightarrow> distinct ks \<Longrightarrow> set ks \<inter> fst ` set al = {} \<Longrightarrow>
   AList.updates ks vs al = al @ zip ks vs"
proof (induction ks vs arbitrary: al rule: list_induct2)
  case Nil
  show ?case by simp
next
  case (Cons k ks v vs)
  have "k \<notin> fst ` set al" using Cons.prems by auto
  hence u: "AList.update k v al = al @ [(k, v)]" by (rule update_fresh)
  have "AList.updates ks vs (al @ [(k, v)]) = (al @ [(k, v)]) @ zip ks vs"
    using Cons.prems by (intro Cons.IH) auto
  thus ?case by (simp add: u)
qed

lemma loadSnapshot_employees:
  assumes "''__proto__'' \<notin> set (ids doc)" and "distinct (ids doc)"
  shows "employees (loadSnapshot doc s) = zip (ids doc) [nxt s ..< nxt s + sz doc]"
  using assms by (simp add: loadSnapshot_facts(3) updates_fresh)

lemma loadSnapshot_table:
  assumes "''__proto__'' \<notin> set (ids doc)" and "distinct (ids doc)"
  shows "table (loadSnapshot doc s) = (\<lambda>e. (e_id e, e)) ` set (entries None doc)"
proof -
  let ?h = "heap (loadSnapshot doc s)" and ?as = "[nxt s ..< nxt s + sz doc]"
  have es: "map (entryOf ?h) ?as = entries None doc"
    using laid_entries [OF loadSnapshot_facts(4) [OF assms(1)]] by simp
  have "table (loadSnapshot doc s) = set (zip (ids doc) (map (entryOf ?h) ?as))"
    by (simp add: table_def loadSnapshot_employees [OF assms] zip_map2)
  also have "\<dots> = set (zip (map e_id (entries None doc)) (entries None doc))"
    by (simp add: es entries_ids)
  also have "\<dots> = (\<lambda>e. (e_id e, e)) ` set (entries None doc)"
    by (simp add: zip_map1 zip_same_conv_map)
  finally show ?thesis .
qed

lemma those_laids:
  assumes "\<And>d a m. d \<in> set ds \<Longrightarrow> laid h m a d \<Longrightarrow> sz d \<le> n \<Longrightarrow> serializeNode n h a = Some d"
    and "laids h p k ds" and "sum_list (map sz ds) \<le> n"
  shows "those (map (serializeNode n h) (starts k ds)) = Some ds"
  using assms
proof (induction ds arbitrary: k)
  case Nil
  show ?case by simp
next
  case (Cons d ds)
  have "laid h (Some p) k d" "sz d \<le> n" using Cons.prems(2,3) by simp_all
  hence "serializeNode n h k = Some d" using Cons.prems(1) [of d "Some p" k] by simp
  moreover have "those (map (serializeNode n h) (starts (k + sz d) ds)) = Some ds"
    using Cons.prems by (intro Cons.IH) simp_all
  ultimately show ?case by simp
qed

lemma serializeNode_laid: "laid h m a d \<Longrightarrow> sz d \<le> n \<Longrightarrow> serializeNode n h a = Some d"
proof (induction d arbitrary: n a m)
  case (JNode i nm ttl lb dv dp em lv ds)
  obtain n' where n: "n = Suc n'" and le: "sum_list (map sz ds) \<le> n'"
    using JNode.prems(2) by (cases n) simp_all
  have ls: "laids h a (Suc a) ds" using JNode.prems(1) by simp
  have "those (map (serializeNode n' h) (starts (Suc a) ds)) = Some ds"
    using JNode.IH by (intro those_laids [OF _ ls le]) simp_all
  thus ?case using JNode.prems(1) by (simp add: n)
qed

lemma loadSnapshot_export:
  assumes "''__proto__'' \<notin> set (ids doc)"
  shows "prepareForExport (loadSnapshot doc s) = Some doc"
  using serializeNode_laid [OF loadSnapshot_facts(4) [OF assms], of "nxt (loadSnapshot doc s)" s]
  by (simp add: prepareForExport_def loadSnapshot_facts(1,2) [OF assms])

lemma loadSnapshot_rootId:
  assumes "''__proto__'' \<notin> set (ids doc)"
  shows "rootId (loadSnapshot doc s) = Some (jid doc)"
  using laid_eid [OF loadSnapshot_facts(4) [OF assms]]
  by (simp add: rootId_def loadSnapshot_facts(2) [OF assms])

lemma those_all2: "those (map f xs) = Some ys \<Longrightarrow> list_all2 (\<lambda>x y. f x = Some y) xs ys"
  by (induction xs arbitrary: ys) (auto split: option.splits)

lemma all2_Union:
  "list_all2 (\<lambda>x y. F x = G y) xs ys \<Longrightarrow> (\<Union>x \<in> set xs. F x) = (\<Union>y \<in> set ys. G y)"
  by (induction rule: list_all2_induct) simp_all

lemma all2_map: "list_all2 (\<lambda>x y. f x = g y) xs ys \<Longrightarrow> map f xs = map g ys"
  by (induction rule: list_all2_induct) simp_all

lemma serializeNode_Suc:
  "serializeNode (Suc n) h a = Some d \<Longrightarrow>
   \<exists>ds. those (map (serializeNode n h) (reports (h a))) = Some ds
     \<and> d = JNode (eid (h a)) (ename (h a)) (etitle (h a)) (elob (h a)) (edivision (h a))
           (edept (h a)) (eemail (h a)) (level (h a)) ds"
  by (auto split: option.splits)

lemma serializeNode_entries:
  assumes c: "coherent s"
  shows "a \<in> members s \<Longrightarrow> serializeNode n (heap s) a = Some d \<Longrightarrow>
     jid d = eid (heap s a)
     \<and> entryOf (heap s) ` sub (heap s) a
         = set (entries (map_option (\<lambda>m. eid (heap s m)) (manager (heap s a))) d)"
proof (induction n arbitrary: a d)
  case 0
  thus ?case by simp
next
  case (Suc n)
  let ?h = "heap s"
  from serializeNode_Suc [OF Suc.prems(2)] obtain ds where
    ds: "those (map (serializeNode n ?h) (reports (?h a))) = Some ds"
    and d: "d = JNode (eid (?h a)) (ename (?h a)) (etitle (?h a)) (elob (?h a)) (edivision (?h a))
           (edept (?h a)) (eemail (?h a)) (level (?h a)) ds"
    by blast
  have all: "list_all2 (\<lambda>x y. serializeNode n ?h x = Some y) (reports (?h a)) ds"
    using ds by (rule those_all2)
  have ch: "jid y = eid (?h x)
      \<and> entryOf ?h ` sub ?h x = set (entries (Some (eid (?h a))) y)"
    if "x \<in> set (reports (?h a))" "serializeNode n ?h x = Some y" for x y
  proof -
    have "x \<in> members s" "manager (?h x) = Some a"
      using coherentD(7) [OF c Suc.prems(1) that(1)] by simp_all
    thus ?thesis using Suc.IH [OF _ that(2)] by simp
  qed
  have 1: "list_all2 (\<lambda>x y. eid (?h x) = jid y) (reports (?h a)) ds"
    using all by (rule list.rel_mono_strong) (simp add: ch)
  have 2: "list_all2 (\<lambda>x y. entryOf ?h ` sub ?h x = set (entries (Some (eid (?h a))) y))
      (reports (?h a)) ds"
    using all by (rule list.rel_mono_strong) (simp add: ch)
  have top: "entryOf ?h a =
     \<lparr>e_id = eid (?h a), e_name = ename (?h a), e_title = etitle (?h a), e_lob = elob (?h a),
      e_division = edivision (?h a), e_dept = edept (?h a), e_email = eemail (?h a),
      e_level = level (?h a), e_manager = map_option (\<lambda>m. eid (?h m)) (manager (?h a)),
      e_reports = map jid ds\<rparr>"
    using all2_map [OF 1] by (simp add: entryOf_def)
  have "entryOf ?h ` sub ?h a
      = insert (entryOf ?h a) (\<Union>x \<in> set (reports (?h a)). entryOf ?h ` sub ?h x)"
    using sub_unfold [of ?h a] by (simp add: image_UN)
  also have "(\<Union>x \<in> set (reports (?h a)). entryOf ?h ` sub ?h x)
      = (\<Union>y \<in> set ds. set (entries (Some (eid (?h a))) y))"
    using 2 by (rule all2_Union)
  finally show ?case by (simp add: d top)
qed

lemma members_sub:
  assumes v: "valid s" and r: "root s = Some r"
  shows "members s = sub (heap s) r"
proof (intro set_eqI iffI)
  fix x
  assume "x \<in> members s"
  thus "x \<in> sub (heap s) r"
    using root_reach [OF v r, of x] by (auto simp: sub_def)
next
  fix x
  assume "x \<in> sub (heap s) r"
  thus "x \<in> members s"
    using sub_member [OF validD(1) [OF v] coherentD(5) [OF validD(1) [OF v] r]] by blast
qed

lemma table_members:
  assumes c: "coherent s"
  shows "table s = (\<lambda>e. (e_id e, e)) ` entryOf (heap s) ` members s"
proof -
  have "set (employees s) = (\<lambda>a. (eid (heap s a), a)) ` members s"
  proof (intro set_eqI iffI)
    fix p
    assume p: "p \<in> set (employees s)"
    obtain k a where ka: "p = (k, a)" by (cases p)
    have "eid (heap s a) = k" using coherentD(3) [OF c] p ka by blast
    moreover have "a \<in> members s" using p ka by (force simp: members_def)
    ultimately show "p \<in> (\<lambda>a. (eid (heap s a), a)) ` members s" using ka by blast
  next
    fix p
    assume "p \<in> (\<lambda>a. (eid (heap s a), a)) ` members s"
    thus "p \<in> set (employees s)" using member_key(1) [OF c] by blast
  qed
  thus ?thesis by (simp add: table_def image_image entryOf_def)
qed

lemma export_table:
  assumes v: "valid s" and r: "root s = Some r" and d: "prepareForExport s = Some doc"
  shows "table s = (\<lambda>e. (e_id e, e)) ` set (entries None doc)" and "jid doc = eid (heap s r)"
    and "set (ids doc) = fst ` set (employees s)"
proof -
  note c = validD(1) [OF v]
  have rm: "r \<in> members s" using coherentD(5) [OF c r] .
  have m: "manager (heap s r) = None" using inv1D [OF validD(2) [OF v] r rm] by simp
  have sn: "serializeNode (nxt s) (heap s) r = Some doc"
    using d r by (simp add: prepareForExport_def)
  from serializeNode_entries [OF c rm sn] m
  have e: "jid doc = eid (heap s r)" "entryOf (heap s) ` sub (heap s) r = set (entries None doc)"
    by simp_all
  show "jid doc = eid (heap s r)" by (rule e(1))
  show t: "table s = (\<lambda>e. (e_id e, e)) ` set (entries None doc)"
    by (simp add: table_members [OF c] members_sub [OF v r] e(2))
  have "fst ` set (employees s) = fst ` table s"
    by (force simp: table_def)
  also have "\<dots> = e_id ` set (entries None doc)" by (simp add: t image_image)
  also have "\<dots> = set (ids doc)" using entries_ids [of None doc] by (metis set_map)
  finally show "set (ids doc) = fst ` set (employees s)" by simp
qed

lemma subtrees_disjoint:
  assumes c: "coherent s" and i3: "inv3 s"
  shows "c1 \<in> members s \<Longrightarrow> c2 \<in> members s \<Longrightarrow> level (heap s c1) = level (heap s c2) \<Longrightarrow>
     x \<in> sub (heap s) c1 \<Longrightarrow> x \<in> sub (heap s) c2 \<Longrightarrow> c1 = c2"
proof (induction "level (heap s x)" arbitrary: x rule: less_induct)
  case less
  let ?h = "heap s"
  note m1 = less.prems(1) and m2 = less.prems(2) and lv = less.prems(3)
  from less.prems(4) have x1: "x = c1 \<or> reach ?h c1 x" by (simp add: sub_def)
  from less.prems(5) have x2: "x = c2 \<or> reach ?h c2 x" by (simp add: sub_def)
  show ?case
  proof (cases "x = c1 \<or> x = c2")
    case True
    thus ?thesis
      using x1 x2 reach_level [OF c i3 _ m1, of x] reach_level [OF c i3 _ m2, of x] lv by auto
  next
    case False
    hence r1: "reach ?h c1 x" and r2: "reach ?h c2 x" using x1 x2 by simp_all
    from reach_last [OF r1] obtain p1 where
      p1: "x \<in> set (reports (?h p1))" "p1 = c1 \<or> reach ?h c1 p1" by blast
    from reach_last [OF r2] obtain p2 where
      p2: "x \<in> set (reports (?h p2))" "p2 = c2 \<or> reach ?h c2 p2" by blast
    have pm1: "p1 \<in> members s" using p1(2) m1 reach_member [OF c _ m1] by blast
    have pm2: "p2 \<in> members s" using p2(2) m2 reach_member [OF c _ m2] by blast
    have "manager (?h x) = Some p1" "manager (?h x) = Some p2"
      using coherentD(7) [OF c pm1 p1(1)] coherentD(7) [OF c pm2 p2(1)] by simp_all
    hence pp: "p2 = p1" by simp
    have "level (?h p1) < level (?h x)"
      using member_child [OF c i3 pm1 p1(1)] by simp
    moreover have "p1 \<in> sub ?h c1" "p1 \<in> sub ?h c2"
      using p1(2) p2(2) pp by (auto simp: sub_def)
    ultimately show ?thesis using less.hyps [of p1] m1 m2 lv by blast
  qed
qed

lemma serializeNode_ids:
  assumes c: "coherent s" and a: "a \<in> members s" and d: "serializeNode n (heap s) a = Some d"
  shows "set (ids d) = (\<lambda>x. eid (heap s x)) ` sub (heap s) a"
proof -
  let ?m = "map_option (\<lambda>m. eid (heap s m)) (manager (heap s a))"
  have "set (ids d) = e_id ` set (entries ?m d)"
    using entries_ids [of ?m d] by (metis set_map)
  also have "\<dots> = e_id ` entryOf (heap s) ` sub (heap s) a"
    using serializeNode_entries [OF c a d] by simp
  also have "\<dots> = (\<lambda>x. eid (heap s x)) ` sub (heap s) a"
    by (simp add: image_image entryOf_def)
  finally show ?thesis .
qed

lemma children_distinct:
  assumes c: "coherent s" and i3: "inv3 s"
  shows "list_all2 (\<lambda>x y. x \<in> members s \<and> level (heap s x) = l \<and> distinct (ids y)
            \<and> set (ids y) = (\<lambda>z. eid (heap s z)) ` sub (heap s) x) cs ds \<Longrightarrow>
     distinct cs \<Longrightarrow> distinct (concat (map ids ds))"
proof (induction rule: list_all2_induct)
  case Nil
  show ?case by simp
next
  case (Cons x xs y ys)
  let ?h = "heap s"
  have "list_all2 (\<lambda>x y. (\<lambda>z. eid (?h z)) ` sub ?h x = set (ids y)) xs ys"
    using Cons.hyps(2) by (rule list_all2_mono) simp
  hence U: "(\<Union>x \<in> set xs. (\<lambda>z. eid (?h z)) ` sub ?h x) = (\<Union>y \<in> set ys. set (ids y))"
    by (rule all2_Union)
  have xs: "x' \<in> members s \<and> level (?h x') = l" if "x' \<in> set xs" for x'
    using Cons.hyps(2) that by (auto simp: list_all2_conv_all_nth in_set_conv_nth)
  have "set (ids y) \<inter> (\<Union>y \<in> set ys. set (ids y)) = {}"
  proof (rule ccontr)
    assume "set (ids y) \<inter> (\<Union>y \<in> set ys. set (ids y)) \<noteq> {}"
    then obtain k where "k \<in> set (ids y)" "k \<in> (\<Union>x \<in> set xs. (\<lambda>z. eid (?h z)) ` sub ?h x)"
      using U by blast
    then obtain z x' z' where z: "z \<in> sub ?h x" "k = eid (?h z)"
      and z': "x' \<in> set xs" "z' \<in> sub ?h x'" "k = eid (?h z')"
      using Cons.hyps(1) by auto
    have "z \<in> members s" "z' \<in> members s"
      using sub_member [OF c _ z(1)] sub_member [OF c _ z'(2)] Cons.hyps(1) xs [OF z'(1)]
      by simp_all
    hence "z = z'" using eid_inj [OF c, of z z'] z(2) z'(3) by simp
    hence "x = x'"
      using subtrees_disjoint [OF c i3, of x x' z] Cons.hyps(1) xs [OF z'(1)] z(1) z'(2) by simp
    thus False using Cons.prems z'(1) by simp
  qed
  thus ?case using Cons by simp
qed

lemma serializeNode_distinct:
  assumes c: "coherent s" and i3: "inv3 s"
  shows "a \<in> members s \<Longrightarrow> serializeNode n (heap s) a = Some d \<Longrightarrow> distinct (ids d)"
proof (induction n arbitrary: a d)
  case 0
  thus ?case by simp
next
  case (Suc n)
  let ?h = "heap s"
  from serializeNode_Suc [OF Suc.prems(2)] obtain ds where
    ds: "those (map (serializeNode n ?h) (reports (?h a))) = Some ds"
    and d: "d = JNode (eid (?h a)) (ename (?h a)) (etitle (?h a)) (elob (?h a)) (edivision (?h a))
           (edept (?h a)) (eemail (?h a)) (level (?h a)) ds"
    by blast
  have all: "list_all2 (\<lambda>x y. serializeNode n ?h x = Some y) (reports (?h a)) ds"
    using ds by (rule those_all2)
  have ch: "x \<in> members s \<and> level (?h x) = Suc (level (?h a)) \<and> distinct (ids y)
      \<and> set (ids y) = (\<lambda>z. eid (?h z)) ` sub ?h x"
    if "x \<in> set (reports (?h a))" "serializeNode n ?h x = Some y" for x y
  proof -
    have x: "x \<in> members s" "level (?h x) = Suc (level (?h a))"
      using member_child [OF c i3 Suc.prems(1) that(1)] by simp_all
    thus ?thesis using Suc.IH [OF x(1) that(2)] serializeNode_ids [OF c x(1) that(2)] by simp
  qed
  have 1: "list_all2 (\<lambda>x y. x \<in> members s \<and> level (?h x) = Suc (level (?h a)) \<and> distinct (ids y)
            \<and> set (ids y) = (\<lambda>z. eid (?h z)) ` sub ?h x) (reports (?h a)) ds"
    using all by (rule list.rel_mono_strong) (simp add: ch)
  have dc: "distinct (concat (map ids ds))"
    using children_distinct [OF c i3 1] coherentD(6) [OF c Suc.prems(1)] by simp
  have "list_all2 (\<lambda>x y. (\<lambda>z. eid (?h z)) ` sub ?h x = set (ids y)) (reports (?h a)) ds"
    using 1 by (rule list_all2_mono) simp
  hence U: "(\<Union>x \<in> set (reports (?h a)). (\<lambda>z. eid (?h z)) ` sub ?h x) = (\<Union>y \<in> set ds. set (ids y))"
    by (rule all2_Union)
  have "eid (?h a) \<notin> (\<Union>x \<in> set (reports (?h a)). (\<lambda>z. eid (?h z)) ` sub ?h x)"
  proof
    assume "eid (?h a) \<in> (\<Union>x \<in> set (reports (?h a)). (\<lambda>z. eid (?h z)) ` sub ?h x)"
    then obtain x z where x: "x \<in> set (reports (?h a))" and z: "z \<in> sub ?h x" "eid (?h a) = eid (?h z)"
      by auto
    have xm: "x \<in> members s" "level (?h x) = Suc (level (?h a))"
      using member_child [OF c i3 Suc.prems(1) x] by simp_all
    have "z \<in> members s" using sub_member [OF c xm(1) z(1)] .
    hence "a = z" using eid_inj [OF c Suc.prems(1) _ z(2)] by simp
    hence "level (?h x) \<le> level (?h a)" using sub_level [OF c i3 xm(1) z(1)] by simp
    thus False using xm(2) by simp
  qed
  thus ?case using dc U by (simp add: d)
qed

lemma export_distinct:
  assumes v: "valid s" and r: "root s = Some r" and d: "prepareForExport s = Some doc"
  shows "distinct (ids doc)"
proof -
  note c = validD(1) [OF v]
  have "serializeNode (nxt s) (heap s) r = Some doc"
    using d r by (simp add: prepareForExport_def)
  thus ?thesis
    using serializeNode_distinct [OF c validD(3) [OF v] coherentD(5) [OF c r]] by blast
qed


section \<open>The invariants across mutations\<close>






section \<open>Undo and redo against the snapshots\<close>

text \<open>
  C2. The claim: after a mutation that takes the tree from \<open>S\<close> to \<open>S'\<close>, \<^verbatim>\<open>undo()\<close> brings
  back the snapshot of \<open>S\<close> and \<^verbatim>\<open>redo()\<close> the snapshot of \<open>S'\<close>. The program takes its
  snapshot before it mutates, so the top of \<^verbatim>\<open>history\<close> is the tree before the last
  mutation, while \<^verbatim>\<open>undo\<close> pops it as "the current state". Evaluated on the chart that
  holds the root and Ann (\<open>S\<close>, document \<open>doc1\<close>) and the mutation that adds Bob under
  Ann (\<open>S'\<close>, document \<open>doc2\<close>): \<^verbatim>\<open>undo()\<close> succeeds and leaves the root alone (\<open>doc0\<close>),
  and \<^verbatim>\<open>redo()\<close> succeeds and leaves \<open>S\<close>, never \<open>S'\<close>.
\<close>

theorem undo_redo_after_second_add:
  "prepareForExport chart1 = Some doc1
   \<and> chart2 = snd (addEmployee ''b'' ''Bob'' ''Eng'' (Id ''a'') [] [] [] [] chart1)
   \<and> prepareForExport chart2 = Some doc2
   \<and> fst (undo chart2)
   \<and> prepareForExport (snd (undo chart2)) = Some doc0
   \<and> fst (redo (snd (undo chart2)))
   \<and> prepareForExport (snd (redo (snd (undo chart2)))) = Some doc1
   \<and> doc0 \<noteq> doc1 \<and> doc1 \<noteq> doc2"
proof -
  have u: "prepareForExport (snd (undo chart2)) = Some doc0" "fst (undo chart2)"
    by (simp_all add: chart2_eq undo_def loadSnapshot_def doc0_def doc1_def Employee_def
        prepareForExport_def Let_def numeral_eq_Suc store_def)
  have r: "prepareForExport (snd (redo (snd (undo chart2)))) = Some doc1"
      "fst (redo (snd (undo chart2)))"
    by (simp_all add: chart2_eq undo_def redo_def loadSnapshot_def doc0_def doc1_def Employee_def
        prepareForExport_def Let_def numeral_eq_Suc store_def)
  show ?thesis
    using u r export_chart1 export_chart2 by (simp add: chart2_def doc0_def doc1_def doc2_def)
qed


section \<open>The cycle guard of moveSubtree\<close>

text \<open>
  C3. On a valid tree, for members \<open>a\<close> and \<open>b\<close> found under the ids \<open>k\<close> and \<open>m\<close>:
  \<^verbatim>\<open>moveSubtree(k, m)\<close> returns \<^verbatim>\<open>false\<close> and changes nothing when \<open>b\<close> is \<open>a\<close> or lies in the
  subtree of \<open>a\<close> (this covers the root, whose subtree holds every other member); in every
  other case it returns \<^verbatim>\<open>true\<close>, \<open>a\<close> has manager \<open>b\<close>, the level of \<open>b\<close> is what it was, and
  every object \<open>d\<close> report edges below \<open>a\<close> (with \<open>a\<close> itself at \<open>d = 0\<close>) has level
  \<open>b.level + 1 + d\<close>; the tree is valid again. The program reports every failure as the
  result \<^verbatim>\<open>false\<close>; it has no error classes.
\<close>

theorem moveSubtree_cycle_guard:
  assumes v: "valid s"
    and ka: "map_of (employees s) k = Some a" and kb: "map_of (employees s) m = Some b"
  shows "(a = b \<or> reach (heap s) a b \<longrightarrow> moveSubtree k m s = (Returned False, s))
    \<and> (\<not> (a = b \<or> reach (heap s) a b) \<longrightarrow>
         (\<exists>s'. moveSubtree k m s = (Returned True, s')
            \<and> manager (heap s' a) = Some b
            \<and> level (heap s' b) = level (heap s b)
            \<and> (\<forall>d x. below (heap s') a d x \<longrightarrow> level (heap s' x) = level (heap s' b) + 1 + d)
            \<and> valid s'))"
proof (intro conjI impI)
  note c = validD(1) [OF v] and i1 = validD(2) [OF v] and i3 = validD(3) [OF v]
    and i4 = validD(4) [OF v]
  from ka kb c have a: "a \<in> members s" "eid (heap s a) = k" and b: "b \<in> members s" "eid (heap s b) = m"
    by (simp_all add: member_lookup)
  have pa: "property s k = Member a" and pb: "property s m = Member b"
    using ka kb by (simp_all add: property_Member)
  {
    assume "a = b \<or> reach (heap s) a b"
    then have "eid (heap s a) = eid (heap s b)
        \<or> isDescendant (nxt s) (heap s) a (Member b) = Some True"
      using isDescendant_reach [OF c i3 i4 b(1) a(1), of "nxt s"] by auto
    then show "moveSubtree k m s = (Returned False, s)"
      by (auto simp: moveSubtree_def pa pb idOf_def Let_def split: option.splits)
  }
  assume no: "\<not> (a = b \<or> reach (heap s) a b)"
  have nr: "root s \<noteq> Some a"
  proof
    assume "root s = Some a"
    from root_reach [OF v this b(1) _ refl] no show False by auto
  qed
  from no have ne: "a \<noteq> b" and nd: "\<not> reach (heap s) a b" by simp_all
  from moveSubtree_moved [OF v ka kb nr ne nd] obtain d h' where
    mv: "moveSubtree k m s = (Returned True, s\<lparr>heap := h', history := history s @ [d], future := []\<rparr>)"
    and h': "\<forall>x \<in> members s. h' x = moved a b (heap s) x" by blast
  let ?s' = "s\<lparr>heap := h', history := history s @ [d], future := []\<rparr>"
  have bs: "b \<notin> sub (heap s) a" using ne nd by (auto simp: sub_def)
  have lb: "level (h' b) = level (heap s b)" using h' b(1) bs by (simp add: moved_def)
  have "level (h' x) = level (h' b) + 1 + d'" if "below h' a d' x" for d' x
  proof -
    from below_moved [OF c i3 a(1) bs h' that]
    have x: "x \<in> sub (heap s) a" "level (heap s x) = level (heap s a) + d'" by simp_all
    from sub_member [OF c a(1) x(1)] h' have "h' x = moved a b (heap s) x" by blast
    with x lb show ?thesis by (simp add: moved_def)
  qed
  moreover have "manager (h' a) = Some b" using h' a(1) by (simp add: moved_def)
  moreover have "valid ?s'"
    using moved_valid [OF v a(1) b(1) nr ne nd h'] by simp
  ultimately show "\<exists>s'. moveSubtree k m s = (Returned True, s')
            \<and> manager (heap s' a) = Some b
            \<and> level (heap s' b) = level (heap s b)
            \<and> (\<forall>d x. below (heap s') a d x \<longrightarrow> level (heap s' x) = level (heap s' b) + 1 + d)
            \<and> valid s'"
    using mv lb by (intro exI [of _ ?s']) simp
qed


text \<open>On the chart of the root, Ann and Bob: Ann cannot move under Bob, who is in her
  subtree; Bob moves under the root and gets level 1.\<close>

theorem moveSubtree_cycle_guard_witness:
  "valid chart2
   \<and> map_of (employees chart2) ''a'' = Some 1 \<and> map_of (employees chart2) ''b'' = Some 2
   \<and> map_of (employees chart2) ''r'' = Some 0
   \<and> reach (heap chart2) 1 2 \<and> \<not> reach (heap chart2) 2 0
   \<and> moveSubtree ''a'' ''b'' chart2 = (Returned False, chart2)
   \<and> fst (moveSubtree ''b'' ''r'' chart2) = Returned True
   \<and> manager (heap (snd (moveSubtree ''b'' ''r'' chart2)) 2) = Some 0
   \<and> level (heap (snd (moveSubtree ''b'' ''r'' chart2)) 2) = 1"
proof -
  have l: "map_of (employees chart2) ''a'' = Some 1" "map_of (employees chart2) ''b'' = Some 2"
    "map_of (employees chart2) ''r'' = Some 0" "level (heap chart2 0) = 0"
    by (simp_all add: chart2_eq)
  have r12: "reach (heap chart2) 1 2"
    by (rule reach.direct) (simp add: chart2_eq)
  have r20: "\<not> reach (heap chart2) 2 0"
    by (subst reach_unfold) (simp add: chart2_eq)
  from moveSubtree_cycle_guard [OF valid_chart2 l(1) l(2)] r12
  have 1: "moveSubtree ''a'' ''b'' chart2 = (Returned False, chart2)" by simp
  from moveSubtree_cycle_guard [OF valid_chart2 l(2) l(3)] r20
  obtain s' where s': "moveSubtree ''b'' ''r'' chart2 = (Returned True, s')"
    "manager (heap s' 2) = Some 0" "level (heap s' 0) = level (heap chart2 0)"
    "\<forall>d x. below (heap s') 2 d x \<longrightarrow> level (heap s' x) = level (heap s' 0) + 1 + d"
    by auto
  from s'(4) below.self [of "heap s'" 2] have "level (heap s' 2) = level (heap s' 0) + 1 + 0"
    by blast
  with s' l 1 r12 r20 valid_chart2 show ?thesis by simp
qed


section \<open>The round trip through a snapshot\<close>

text \<open>
  C4. Take a valid tree with a root (with no root there is no org chart to export: the
  program refuses, and \<^verbatim>\<open>_prepareForExport\<close> alone fails on \<^verbatim>\<open>null\<close>), no member of it
  registered under the key \<^verbatim>\<open>__proto__\<close>. \<^verbatim>\<open>_prepareForExport\<close> returns a document, and loading
  that document with \<^verbatim>\<open>_loadSnapshot\<close> (\<^verbatim>\<open>employees = {}\<close>, then \<^verbatim>\<open>_recreateFromJSON\<close>), into
  the same chart or any other, gives a chart with the same table: the same ids as keys,
  and under each id an object with the same id, the same six text fields, the same
  level, a manager with the same id (or none) and reports with the same ids in the same
  order. The root has the same id, and exporting the loaded chart gives the same
  document again. Nothing restricts the shape of the tree: a root alone and members
  without reports are included.
\<close>

theorem snapshot_round_trip:
  assumes v: "valid s" and r: "root s = Some r"
    and plain: "''__proto__'' \<notin> fst ` set (employees s)" and t: "\<not> foreign t"
  shows "\<exists>doc. prepareForExport s = Some doc
      \<and> table (loadSnapshot doc t) = table s
      \<and> rootId (loadSnapshot doc t) = rootId s
      \<and> prepareForExport (loadSnapshot doc t) = Some doc
      \<and> \<not> foreign (loadSnapshot doc t)"
proof -
  obtain doc where d: "prepareForExport s = Some doc"
    using prepareForExport_valid [OF v r] by blast
  have p: "''__proto__'' \<notin> set (ids doc)"
    using export_table(3) [OF v r d] plain by simp
  have dist: "distinct (ids doc)" using export_distinct [OF v r d] .
  have "table (loadSnapshot doc t) = table s"
    using loadSnapshot_table [OF p dist, of t] export_table(1) [OF v r d] by simp
  moreover have "rootId (loadSnapshot doc t) = rootId s"
    using loadSnapshot_rootId [OF p, of t] export_table(2) [OF v r d] r by (simp add: rootId_def)
  moreover have "prepareForExport (loadSnapshot doc t) = Some doc"
    using loadSnapshot_export [OF p] .
  moreover have "\<not> foreign (loadSnapshot doc t)"
    using t by (simp add: loadSnapshot_facts(7) [OF p])
  ultimately show ?thesis using d by blast
qed


text \<open>The chart of the root, Ann and Bob, exported and loaded into the chart that holds the
  root alone.\<close>

theorem snapshot_round_trip_witness:
  "valid chart2 \<and> root chart2 = Some 0 \<and> ''__proto__'' \<notin> fst ` set (employees chart2)
   \<and> \<not> foreign chart0
   \<and> prepareForExport chart2 = Some doc2
   \<and> table (loadSnapshot doc2 chart0) = table chart2
   \<and> rootId (loadSnapshot doc2 chart0) = Some ''r''
   \<and> prepareForExport (loadSnapshot doc2 chart0) = Some doc2"
proof -
  have h: "root chart2 = Some 0" "''__proto__'' \<notin> fst ` set (employees chart2)"
    "\<not> foreign chart0" "rootId chart2 = Some ''r''"
    by (simp_all add: chart2_eq chart0_eq rootId_def)
  from snapshot_round_trip [OF valid_chart2 h(1,2,3)] export_chart2 h valid_chart2
  show ?thesis by auto
qed


section \<open>Removing a member and handing over its reports\<close>

text \<open>
  C7. The claim: removing a member \<open>m\<close> with \<^verbatim>\<open>reassignToId = X\<close>, for any existing member
  \<open>X\<close>, leaves every former direct report of \<open>m\<close> with manager \<open>X\<close> and level
  \<open>X.level + 1\<close>. \<^verbatim>\<open>removeEmployee\<close> has no check on the new manager beyond its existence,
  where \<^verbatim>\<open>moveSubtree\<close> refuses a target inside the moved subtree. Evaluated on the valid
  chart of the root, Ann and Bob, removing Ann and handing her reports to Bob, her only
  report: the call succeeds, Bob is still a member, Bob is his own manager and his own
  report, his level is 3 and so not his manager's level plus one, and the next
  \<^verbatim>\<open>moveSubtree\<close> of Bob never leaves \<^verbatim>\<open>_isDescendant\<close>.
\<close>

theorem remove_reassign_to_own_report:
  "valid chart2
   \<and> map_of (employees chart2) ''a'' = Some 1 \<and> map_of (employees chart2) ''b'' = Some 2
   \<and> reports (heap chart2 1) = [2] \<and> root chart2 = Some 0
   \<and> fst (removeEmployee ''a'' (Id ''b'') chart2) = Returned True
   \<and> map_of (employees (snd (removeEmployee ''a'' (Id ''b'') chart2))) ''a'' = None
   \<and> map_of (employees (snd (removeEmployee ''a'' (Id ''b'') chart2))) ''b'' = Some 2
   \<and> manager (heap (snd (removeEmployee ''a'' (Id ''b'') chart2)) 2) = Some 2
   \<and> reports (heap (snd (removeEmployee ''a'' (Id ''b'') chart2)) 2) = [2]
   \<and> level (heap (snd (removeEmployee ''a'' (Id ''b'') chart2)) 2) = 3
   \<and> level (heap (snd (removeEmployee ''a'' (Id ''b'') chart2)) 2)
       \<noteq> level (heap (snd (removeEmployee ''a'' (Id ''b'') chart2)) 2) + 1
   \<and> fst (moveSubtree ''b'' ''r'' (snd (removeEmployee ''a'' (Id ''b'') chart2))) = Thrown"
proof -
  have "removeEmployee ''a'' (Id ''b'') chart2 =
    (Returned True,
     \<lparr>heap = (\<lambda>_. noEmployee)
        (0 := \<lparr>eid = ''r'', ename = ''Root'', etitle = ''CEO'', elob = [], edivision = [],
               edept = [], eemail = [], manager = None, reports = [], level = 0\<rparr>,
         1 := \<lparr>eid = ''a'', ename = ''Ann'', etitle = ''VP'', elob = [], edivision = [],
               edept = [], eemail = [], manager = Some 0, reports = [2], level = 1\<rparr>,
         2 := \<lparr>eid = ''b'', ename = ''Bob'', etitle = ''Eng'', elob = [], edivision = [],
               edept = [], eemail = [], manager = Some 2, reports = [2], level = 3\<rparr>),
      nxt = 3, root = Some 0, employees = [(''r'', 0), (''b'', 2)],
      history = [doc0, doc0, doc1, doc2], future = [],
      foreign = False\<rparr>)"
    by (simp add: chart2_eq removeEmployee_def pushState_def serializeOrg_def prepareForExport_def
        addReport_def Let_def doc2_def numeral_eq_Suc AList.delete_eq fun_upd_twist
        property_def truthy_def keyOf_def)
  then show ?thesis
    using valid_chart2
    by (simp add: chart2_eq moveSubtree_def numeral_eq_Suc property_def idOf_def)
qed


section \<open>Adding a member\<close>



section \<open>The cycle guard on a tree loaded from a snapshot\<close>





section \<open>Rejected mutations and undo\<close>

lemma removeEmployee_False: "removeEmployee k nm s = (Returned False, s') \<Longrightarrow> s' = s"
  by (auto simp: removeEmployee_def Let_def split: if_splits option.splits jsvalue.splits)

lemma editEmployee_False: "editEmployee k nd s = (Returned False, s') \<Longrightarrow> s' = s"
  by (auto simp: editEmployee_def Let_def split: if_splits option.splits jsvalue.splits)

lemma moveSubtree_False: "moveSubtree k m s = (Returned False, s') \<Longrightarrow> s' = s"
  by (auto simp: moveSubtree_def Let_def
      split: if_splits option.splits bool.splits jsvalue.splits)

text \<open>
  C10. The claim has two parts. The first holds wherever a call returns \<^verbatim>\<open>false\<close>: the
  three lemmas above say that the state is then the one before the call. The second part,
  that an \<^verbatim>\<open>undo()\<close> after a rejected mutation reverts the last successful mutation, fails.
  On the chart of the root, Ann and Bob, whose last successful mutation added Bob to the
  chart of the root and Ann (document \<open>doc1\<close>): moving Ann under Bob is rejected and
  changes nothing, and the \<^verbatim>\<open>undo()\<close> that follows succeeds and leaves the root alone
  (\<open>doc0\<close>), because \<^verbatim>\<open>undo\<close> loads the entry below the top of \<^verbatim>\<open>history\<close> while the top is
  already the tree before the last mutation. The first part fails as well for an id that
  no member has but every object inherits: \<^verbatim>\<open>editEmployee('constructor', {})\<close> passes the
  check, takes a snapshot and returns \<^verbatim>\<open>true\<close>, and \<^verbatim>\<open>removeEmployee('constructor')\<close> takes a
  snapshot and throws.
\<close>

theorem failed_move_then_undo:
  "valid chart2
   \<and> chart2 = snd (addEmployee ''b'' ''Bob'' ''Eng'' (Id ''a'') [] [] [] [] chart1)
   \<and> prepareForExport chart1 = Some doc1 \<and> prepareForExport chart2 = Some doc2
   \<and> moveSubtree ''a'' ''b'' chart2 = (Returned False, chart2)
   \<and> fst (undo (snd (moveSubtree ''a'' ''b'' chart2)))
   \<and> prepareForExport (snd (undo (snd (moveSubtree ''a'' ''b'' chart2)))) = Some doc0
   \<and> doc0 \<noteq> doc1
   \<and> map_of (employees chart2) ''constructor'' = None
   \<and> editEmployee ''constructor'' noData chart2
       = (Returned True, chart2\<lparr>history := [doc0, doc0, doc1, doc2]\<rparr>)
   \<and> removeEmployee ''constructor'' Null chart2
       = (Thrown, chart2\<lparr>history := [doc0, doc0, doc1, doc2]\<rparr>)"
proof -
  have mv: "moveSubtree ''a'' ''b'' chart2 = (Returned False, chart2)"
    by (simp add: chart2_eq moveSubtree_def property_def idOf_def numeral_eq_Suc Let_def)
  have u: "fst (undo chart2)" "prepareForExport (snd (undo chart2)) = Some doc0"
    by (simp_all add: chart2_eq undo_def loadSnapshot_def doc0_def doc1_def Employee_def
        prepareForExport_def Let_def numeral_eq_Suc store_def)
  have ed: "editEmployee ''constructor'' noData chart2
       = (Returned True, chart2\<lparr>history := [doc0, doc0, doc1, doc2]\<rparr>)"
    "removeEmployee ''constructor'' Null chart2
       = (Thrown, chart2\<lparr>history := [doc0, doc0, doc1, doc2]\<rparr>)"
    "map_of (employees chart2) ''constructor'' = None"
    by (simp_all add: chart2_eq editEmployee_def removeEmployee_def property_def
        inheritedFunctions_def pushState_def serializeOrg_def prepareForExport_def noData_def
        doc2_def numeral_eq_Suc)
  show ?thesis
    using mv u ed valid_chart2 export_chart1 export_chart2
    by (simp add: chart2_def doc0_def doc1_def)
qed

end
